theory Spec2Isabelle
  imports Main
begin

section \<open>The memory sequence game (src/memory/memorygame.py)\<close>

text \<open>
  The game flashes a growing sequence of buttons and the player repeats it by clicking.
  This theory embeds the parts of the program that carry logic: the grid layout
  (\<open>create_buttons\<close>), the session fields of \<open>Game\<close>, the playback
  (\<open>Game.animate_sequence\<close>), the recall loop and the round loop
  (\<open>Game.run_gameplay\<close>) and the difficulty screen of \<open>Game.run\<close>.

  Counters that start at a non-negative value and are only incremented
  (\<open>num_buttons\<close>, \<open>max_buttons\<close>, \<open>score\<close>) are natural numbers; coordinates,
  button identifiers and sequence elements are integers, as Python's are. Colours, fonts,
  sounds and the hover scale of a button are left out: no statement below depends on them,
  and \<open>start_hover\<close> is never called, so \<open>scale\<close> stays \<open>1.0\<close>.
\<close>

subsection \<open>Constants\<close>

definition WIDTH :: int where "WIDTH = 800"
definition HEIGHT :: int where "HEIGHT = 600"
definition BUTTON_SIZE :: int where "BUTTON_SIZE = 150"
definition BUTTON_PADDING :: int where "BUTTON_PADDING = 30"
definition MAX_BUTTONS :: nat where "MAX_BUTTONS = 10"
definition HIGHLIGHT_ANIMATION_STEPS :: nat where "HIGHLIGHT_ANIMATION_STEPS = 20"

subsection \<open>Rectangles and buttons\<close>

text \<open>
  \<open>pygame.Rect(x, y, w, h)\<close>. A point is inside when it lies in the half-open box
  \<open>[x, x + w) \<times> [y, y + h)\<close>, which is what \<open>Rect.collidepoint\<close> tests;
  \<open>centerx\<close> and \<open>centery\<close> are computed with integer division.
\<close>

record rect =
  rx :: int
  ry :: int
  rw :: int
  rh :: int

definition centerx :: "rect \<Rightarrow> int" where
  "centerx r = rx r + rw r div 2"

definition centery :: "rect \<Rightarrow> int" where
  "centery r = ry r + rh r div 2"

definition collidepoint :: "rect \<Rightarrow> int \<times> int \<Rightarrow> bool" where
  "collidepoint r pos \<longleftrightarrow>
     rx r \<le> fst pos \<and> fst pos < rx r + rw r \<and> ry r \<le> snd pos \<and> snd pos < ry r + rh r"

text \<open>Class \<open>Button\<close>: its rectangle and its \<open>id\<close>.\<close>

record button =
  brect :: rect
  bid :: int

text \<open>
  \<open>Button.is_clicked\<close>. With \<open>scale = 1.0\<close> the scaled width and height are
  \<open>int(width * 1.0) = width\<close> and \<open>int(height * 1.0) = height\<close>.
\<close>

definition is_clicked :: "button \<Rightarrow> int \<times> int \<Rightarrow> bool" where
  "is_clicked b pos =
     (let scaled_width = rw (brect b);
          scaled_height = rh (brect b);
          scaled_rect = \<lparr>rx = centerx (brect b) - scaled_width div 2,
                         ry = centery (brect b) - scaled_height div 2,
                         rw = scaled_width, rh = scaled_height\<rparr>
      in collidepoint scaled_rect pos)"

subsection \<open>The grid layout: \<open>create_buttons\<close>\<close>

text \<open>
  \<open>int(num_buttons ** 0.5)\<close> is the integer part of the square root. The double
  precision computation is exact for every count the game can reach (4 to 10) and far
  beyond; the model takes the exact integer square root.
\<close>

fun int_sqrt :: "nat \<Rightarrow> nat" where
  "int_sqrt 0 = 0"
| "int_sqrt (Suc n) =
     (let r = int_sqrt n in if (r + 1) * (r + 1) \<le> Suc n then r + 1 else r)"

definition grid_cols :: "nat \<Rightarrow> nat" where
  "grid_cols num = (let c = int_sqrt num in if c ^ 2 < num then c + 1 else c)"

definition grid_rows :: "nat \<Rightarrow> nat" where
  "grid_rows num =
     (let r = int_sqrt num in if grid_cols num * r < num then r + 1 else r)"

definition total_width :: "nat \<Rightarrow> int" where
  "total_width num =
     int (grid_cols num) * BUTTON_SIZE + (int (grid_cols num) - 1) * BUTTON_PADDING"

definition total_height :: "nat \<Rightarrow> int" where
  "total_height num =
     int (grid_rows num) * BUTTON_SIZE + (int (grid_rows num) - 1) * BUTTON_PADDING"

definition start_x :: "nat \<Rightarrow> int" where
  "start_x num = (WIDTH - total_width num) div 2"

definition start_y :: "nat \<Rightarrow> int" where
  "start_y num = (HEIGHT - total_height num) div 2"

text \<open>The body of \<open>for i in range(num_buttons)\<close>: the button with index \<open>i\<close>.\<close>

definition make_button :: "nat \<Rightarrow> nat \<Rightarrow> button" where
  "make_button num i =
     (let row = i div grid_cols num;
          col = i mod grid_cols num;
          x = start_x num + int col * (BUTTON_SIZE + BUTTON_PADDING);
          y = start_y num + int row * (BUTTON_SIZE + BUTTON_PADDING)
      in \<lparr>brect = \<lparr>rx = x, ry = y, rw = BUTTON_SIZE, rh = BUTTON_SIZE\<rparr>, bid = int i\<rparr>)"

definition create_buttons :: "nat \<Rightarrow> button list" where
  "create_buttons num = map (make_button num) [0..<num]"

subsection \<open>Errors and the library calls the game makes\<close>

datatype error = IndexError | ValueError

text \<open>
  Python list indexing \<open>xs[i]\<close>: a negative index counts from the end, an index outside
  the list raises \<open>IndexError\<close>.
\<close>

definition py_index :: "'a list \<Rightarrow> int \<Rightarrow> error + 'a" where
  "py_index xs i =
     (if 0 \<le> i \<and> i < int (length xs) then Inr (xs ! nat i)
      else if i < 0 \<and> - int (length xs) \<le> i then Inr (xs ! nat (int (length xs) + i))
      else Inl IndexError)"

text \<open>
  \<open>random.randint(a, b)\<close> belongs to the Python library, not to the repository. Its
  contract: it raises \<open>ValueError\<close> on an empty range and otherwise returns an integer
  \<open>N\<close> with \<open>a \<le> N \<le> b\<close>, every value of the range being equally likely. The model makes
  the generator's raw output \<open>e\<close> an input and reduces it into the range.
\<close>

definition randint :: "int \<Rightarrow> int \<Rightarrow> nat \<Rightarrow> error + int" where
  "randint a b e = (if b < a then Inl ValueError else Inr (a + int e mod (b - a + 1)))"

text \<open>
  Events of \<open>pygame.event.get()\<close>. A \<open>MOUSEBUTTONDOWN\<close> carries the position that
  \<open>pygame.mouse.get_pos()\<close> returns when the event is handled; every other event type
  is \<open>OTHER\<close>.
\<close>

datatype event = QUIT | MOUSEBUTTONDOWN "int \<times> int" | OTHER

text \<open>
  pygame keeps the events the window system delivers in a queue until
  \<open>pygame.event.get()\<close> removes and returns them all. \<open>queued\<close> are the events that
  arrived while the program made no such call; \<open>polls\<close> lists what arrives before each of
  the following calls. The first call returns the queued events ahead of its own batch.
\<close>

definition event_get_after :: "event list \<Rightarrow> event list list \<Rightarrow> event list list" where
  "event_get_after queued polls =
     (case polls of [] \<Rightarrow> [queued] | p # ps \<Rightarrow> (queued @ p) # ps)"

subsection \<open>Class \<open>Game\<close>\<close>

record game =
  state :: string
  buttons :: "button list"
  sequence :: "int list"
  user_sequence :: "int list"
  score :: nat
  num_buttons :: nat
  max_buttons :: nat
  difficulty :: string
  display_speed :: int
  fast_display_speed :: int

text \<open>\<open>Game.__init__\<close>.\<close>

definition init_game :: game where
  "init_game =
     \<lparr>state = ''TITLE'', buttons = create_buttons 4, sequence = [], user_sequence = [],
      score = 0, num_buttons = 4, max_buttons = MAX_BUTTONS, difficulty = ''Normal'',
      display_speed = 500, fast_display_speed = 100\<rparr>"

definition reset_game :: "game \<Rightarrow> game" where
  "reset_game g =
     g\<lparr>sequence := [], user_sequence := [], score := 0, num_buttons := 4,
       buttons := create_buttons 4\<rparr>"

text \<open>\<open>Game.add_buttons\<close>: the loop \<open>for _ in range(count)\<close>, then the new layout.\<close>

fun add_buttons_loop :: "nat \<Rightarrow> nat \<Rightarrow> nat \<Rightarrow> nat" where
  "add_buttons_loop 0 num mx = num"
| "add_buttons_loop (Suc k) num mx = add_buttons_loop k (if num < mx then num + 1 else num) mx"

definition add_buttons :: "game \<Rightarrow> nat \<Rightarrow> game" where
  "add_buttons g count =
     (let n = add_buttons_loop count (num_buttons g) (max_buttons g)
      in g\<lparr>num_buttons := n, buttons := create_buttons n\<rparr>)"

text \<open>\<open>Game.add_to_sequence\<close>; \<open>e\<close> is the generator's raw output for this call.\<close>

definition add_to_sequence :: "game \<Rightarrow> nat \<Rightarrow> error + game" where
  "add_to_sequence g e =
     (case randint 0 (int (num_buttons g) - 1) e of
        Inl err \<Rightarrow> Inl err
      | Inr v \<Rightarrow> Inr (g\<lparr>sequence := sequence g @ [v]\<rparr>))"

subsection \<open>Playback: \<open>Game.animate_sequence\<close>\<close>

text \<open>
  What the playback does, in order: a highlight starts, a number of frames is drawn,
  \<open>pygame.time.delay\<close> blocks for a number of milliseconds, the highlight is taken back.
\<close>

datatype effect = StartHighlight int | StartUnhighlight int | Frames nat | Delay int

definition hold_delay :: "game \<Rightarrow> int" where
  "hold_delay g = (if difficulty g = ''Fast'' then fast_display_speed g else display_speed g)"

fun animate_loop :: "game \<Rightarrow> int list \<Rightarrow> error + effect list" where
  "animate_loop g [] = Inr []"
| "animate_loop g (button_id # ids) =
     (case py_index (buttons g) button_id of
        Inl err \<Rightarrow> Inl err
      | Inr b \<Rightarrow>
          (case animate_loop g ids of
             Inl err \<Rightarrow> Inl err
           | Inr fx \<Rightarrow>
               Inr ([StartHighlight (bid b), Frames HIGHLIGHT_ANIMATION_STEPS,
                     Delay (hold_delay g),
                     StartUnhighlight (bid b), Frames HIGHLIGHT_ANIMATION_STEPS,
                     Delay 100] @ fx)))"

definition animate_sequence :: "game \<Rightarrow> error + effect list" where
  "animate_sequence g = animate_loop g (sequence g)"

text \<open>The delays between the end of a highlight animation and the start of the un-highlight.\<close>

fun hold_delays :: "effect list \<Rightarrow> int list" where
  "hold_delays (StartHighlight b # Frames k # Delay d # fx) = d # hold_delays fx"
| "hold_delays (x # fx) = hold_delays fx"
| "hold_delays [] = []"

subsection \<open>Recall: the input loops of \<open>Game.run_gameplay\<close>\<close>

text \<open>
  The body of \<open>for event in pygame.event.get()\<close> at index \<open>idx\<close>. The loop state is the
  game, \<open>user_input\<close> and \<open>running\<close>; \<open>None\<close> is \<open>sys.exit()\<close>. The inner
  \<open>for button in self.buttons\<close> stops at the first button that contains the position;
  its \<open>break\<close> leaves that loop only.
\<close>

fun handle_event :: "nat \<Rightarrow> game \<times> int option \<times> bool \<Rightarrow> event \<Rightarrow> (game \<times> int option \<times> bool) option" where
  "handle_event idx (g, user_input, running) QUIT = None"
| "handle_event idx (g, user_input, running) OTHER = Some (g, user_input, running)"
| "handle_event idx (g, user_input, running) (MOUSEBUTTONDOWN pos) =
     (case find (\<lambda>b. is_clicked b pos) (buttons g) of
        None \<Rightarrow> Some (g, user_input, running)
      | Some b \<Rightarrow>
          Some (g\<lparr>user_sequence := user_sequence g @ [bid b]\<rparr>, Some (bid b),
                if bid b \<noteq> sequence g ! idx then False else running))"

fun process_events :: "nat \<Rightarrow> game \<times> int option \<times> bool \<Rightarrow> event list \<Rightarrow> (game \<times> int option \<times> bool) option" where
  "process_events idx s [] = Some s"
| "process_events idx s (ev # evs) =
     (case handle_event idx s ev of None \<Rightarrow> None | Some s' \<Rightarrow> process_events idx s' evs)"

text \<open>
  \<open>while user_input is None\<close>: one call of \<open>pygame.event.get()\<close> per turn. When the
  model's polls are used up the loop is still waiting.
\<close>

datatype await_result = AExit | AWaiting game | AGot game bool "event list list"

fun await_input :: "nat \<Rightarrow> game \<Rightarrow> bool \<Rightarrow> event list list \<Rightarrow> await_result" where
  "await_input idx g running [] = AWaiting g"
| "await_input idx g running (batch # polls) =
     (case process_events idx (g, None, running) batch of
        None \<Rightarrow> AExit
      | Some (g', None, running') \<Rightarrow> await_input idx g' running' polls
      | Some (g', Some v, running') \<Rightarrow> AGot g' running' polls)"

text \<open>
  \<open>for idx in range(len(self.sequence))\<close>, with \<open>if not running: break\<close> after each
  index. The result carries \<open>running\<close>.
\<close>

datatype recall_result = RExit | RWaiting game | RDone game bool "event list list"

fun recall :: "nat list \<Rightarrow> game \<Rightarrow> event list list \<Rightarrow> recall_result" where
  "recall [] g polls = RDone g True polls"
| "recall (idx # idxs) g polls =
     (case await_input idx g True polls of
        AExit \<Rightarrow> RExit
      | AWaiting g' \<Rightarrow> RWaiting g'
      | AGot g' running polls' \<Rightarrow>
          if \<not> running then RDone g' False polls' else recall idxs g' polls')"

subsection \<open>The round loop of \<open>Game.run_gameplay\<close>\<close>

text \<open>
  One turn of \<open>while running\<close>. \<open>e\<close> is the generator's output for this round, \<open>queued\<close>
  the events that arrive during the pause and the playback, \<open>polls\<close> what arrives before
  each \<open>pygame.event.get()\<close> of the recall phase.
\<close>

datatype round_result =
    Won game "event list list"
  | Lost game
  | Waiting game
  | Quit
  | Failed error

definition play_round :: "game \<Rightarrow> nat \<Rightarrow> event list \<Rightarrow> event list list \<Rightarrow> round_result" where
  "play_round g e queued polls =
     (case add_to_sequence g e of
        Inl err \<Rightarrow> Failed err
      | Inr g1 \<Rightarrow>
          (case animate_sequence g1 of
             Inl err \<Rightarrow> Failed err
           | Inr fx \<Rightarrow>
               (let g2 = g1\<lparr>user_sequence := []\<rparr> in
                case recall [0..<length (sequence g2)] g2 (event_get_after queued polls) of
                  RExit \<Rightarrow> Quit
                | RWaiting g3 \<Rightarrow> Waiting g3
                | RDone g3 running polls' \<Rightarrow>
                    if \<not> running then Lost g3
                    else
                      (let g4 = g3\<lparr>score := score g3 + 1\<rparr> in
                       if score g4 mod 5 = 0 \<and> num_buttons g4 < max_buttons g4
                       then Won (add_buttons g4 2) polls'
                       else Won g4 polls'))))"

text \<open>
  The outcome of \<open>run_gameplay\<close> on the inputs given: the process exited, an exception
  was raised, the method returned (after a wrong click, with \<open>state = "GAME_OVER"\<close>), or
  the loop is still running: waiting for a click in the recall phase, or at the head of
  the next round.
\<close>

datatype outcome =
    Exited
  | Raised error
  | Returned game
  | InRecall game
  | AtRoundStart game

fun rounds :: "game \<Rightarrow> (nat \<times> event list) list \<Rightarrow> event list list \<Rightarrow> outcome" where
  "rounds g [] polls = AtRoundStart g"
| "rounds g ((e, queued) # ins) polls =
     (case play_round g e queued polls of
        Won g' polls' \<Rightarrow> rounds g' ins polls'
      | Lost g' \<Rightarrow> Returned (g'\<lparr>state := ''GAME_OVER''\<rparr>)
      | Waiting g' \<Rightarrow> InRecall g'
      | Quit \<Rightarrow> Exited
      | Failed err \<Rightarrow> Raised err)"

definition run_gameplay :: "game \<Rightarrow> (nat \<times> event list) list \<Rightarrow> event list list \<Rightarrow> outcome" where
  "run_gameplay g ins polls = rounds (reset_game g) ins polls"

subsection \<open>The difficulty screen of \<open>Game.run\<close>\<close>

definition normal_button_rect :: rect where
  "normal_button_rect = \<lparr>rx = WIDTH div 2 - 100, ry = HEIGHT div 2 - 50, rw = 200, rh = 60\<rparr>"

definition fast_button_rect :: rect where
  "fast_button_rect = \<lparr>rx = WIDTH div 2 - 100, ry = HEIGHT div 2 + 50, rw = 200, rh = 60\<rparr>"

definition choose_normal :: "game \<Rightarrow> game" where
  "choose_normal g =
     g\<lparr>difficulty := ''Normal'', display_speed := 500, fast_display_speed := 100,
       state := ''GAME''\<rparr>"

definition choose_fast :: "game \<Rightarrow> game" where
  "choose_fast g =
     g\<lparr>difficulty := ''Fast'', display_speed := 100, fast_display_speed := 50,
       state := ''GAME''\<rparr>"

text \<open>
  The event loop of the branch \<open>self.state == "DIFFICULTY"\<close>: the first click on one of
  the two buttons sets the difficulty and leaves the loop; \<open>None\<close> is \<open>sys.exit()\<close>.
\<close>

fun difficulty_events :: "game \<Rightarrow> event list \<Rightarrow> game option" where
  "difficulty_events g [] = Some g"
| "difficulty_events g (QUIT # evs) = None"
| "difficulty_events g (OTHER # evs) = difficulty_events g evs"
| "difficulty_events g (MOUSEBUTTONDOWN pos # evs) =
     (if collidepoint normal_button_rect pos then Some (choose_normal g)
      else if collidepoint fast_button_rect pos then Some (choose_fast g)
      else difficulty_events g evs)"

text \<open>The settings a difficulty choice fixes; nothing in \<open>run_gameplay\<close> assigns them.\<close>

definition same_settings :: "game \<Rightarrow> game \<Rightarrow> bool" where
  "same_settings g s \<longleftrightarrow>
     difficulty s = difficulty g \<and> display_speed s = display_speed g \<and>
     fast_display_speed s = fast_display_speed g"

subsection \<open>Session states and their well-formedness\<close>

text \<open>The game object an outcome leaves behind, when the process is still alive.\<close>

fun final_game :: "outcome \<Rightarrow> game option" where
  "final_game Exited = None"
| "final_game (Raised err) = None"
| "final_game (Returned g) = Some g"
| "final_game (InRecall g) = Some g"
| "final_game (AtRoundStart g) = Some g"

text \<open>
  There is one button per cell, at least one cell, and every element of the sequence is
  the index of a button.
\<close>

definition in_bounds :: "game \<Rightarrow> bool" where
  "in_bounds g \<longleftrightarrow>
     length (buttons g) = num_buttons g \<and> 1 \<le> num_buttons g \<and>
     list_all (\<lambda>v. 0 \<le> v \<and> v < int (num_buttons g)) (sequence g)"

subsection \<open>Invariants and concrete session states\<close>

text \<open>
  The first four buttons lie at \<open>(235, 135)\<close>, \<open>(415, 135)\<close>, \<open>(235, 315)\<close> and
  \<open>(415, 315)\<close>, each 150 wide and high; a click at \<open>(240, 320)\<close> hits button 2, one at
  \<open>(420, 140)\<close> button 1.
\<close>

definition after_first_round :: game where
  "after_first_round = init_game\<lparr>sequence := [2], user_sequence := [2], score := 1\<rparr>"

definition after_second_round :: game where
  "after_second_round = init_game\<lparr>sequence := [2, 1], user_sequence := [2, 1], score := 2\<rparr>"

text \<open>The sequence has one element per completed round.\<close>

definition counted :: "game \<Rightarrow> bool" where
  "counted g \<longleftrightarrow> length (sequence g) = score g"

definition waiting_second_round :: game where
  "waiting_second_round = init_game\<lparr>sequence := [2, 1], user_sequence := [], score := 1\<rparr>"

text \<open>The schedule of the grid: two more buttons for every five rounds completed, up to ten.\<close>

definition on_schedule :: "game \<Rightarrow> bool" where
  "on_schedule g \<longleftrightarrow>
     max_buttons g = MAX_BUTTONS \<and> num_buttons g = min (4 + 2 * (score g div 5)) 10"

definition after_four_rounds :: game where
  "after_four_rounds =
     init_game\<lparr>sequence := [0, 0, 0, 0], user_sequence := [0, 0, 0, 0], score := 4\<rparr>"

definition after_five_rounds :: game where
  "after_five_rounds =
     init_game\<lparr>sequence := [0, 0, 0, 0, 0], user_sequence := [0, 0, 0, 0, 0], score := 5,
               num_buttons := 6, buttons := create_buttons 6\<rparr>"

text \<open>The buttons are the layout of the current count.\<close>

definition laid_out :: "game \<Rightarrow> bool" where
  "laid_out g \<longleftrightarrow> buttons g = create_buttons (num_buttons g)"

text \<open>The game on the difficulty screen, and the first round after choosing Fast.\<close>

definition difficulty_screen :: game where
  "difficulty_screen = init_game\<lparr>state := ''DIFFICULTY''\<rparr>"

definition fast_first_round :: game where
  "fast_first_round = (choose_fast difficulty_screen)\<lparr>sequence := [0]\<rparr>"

definition normal_first_round :: game where
  "normal_first_round = (choose_normal difficulty_screen)\<lparr>sequence := [0]\<rparr>"

text \<open>The delays of a playback, when it raises no exception.\<close>

definition playback_hold_delays :: "game \<Rightarrow> error + int list" where
  "playback_hold_delays g =
     (case animate_sequence g of Inl err \<Rightarrow> Inl err | Inr fx \<Rightarrow> Inr (hold_delays fx))"

text \<open>
  The events \<open>handle_event\<close> passes by without any effect: those that are neither a quit
  nor a click on a button.
\<close>

fun passes_by :: "button list \<Rightarrow> event \<Rightarrow> bool" where
  "passes_by bs QUIT = False"
| "passes_by bs OTHER = True"
| "passes_by bs (MOUSEBUTTONDOWN pos) = (find (\<lambda>b. is_clicked b pos) bs = None)"

text \<open>The game object a round leaves behind, when there is one.\<close>

fun round_game :: "round_result \<Rightarrow> game option" where
  "round_game (Won g polls) = Some g"
| "round_game (Lost g) = Some g"
| "round_game (Waiting g) = Some g"
| "round_game Quit = None"
| "round_game (Failed err) = None"

section \<open>The layout\<close>

lemma int_sqrt_bounds:
  "int_sqrt n * int_sqrt n \<le> n \<and> n < (int_sqrt n + 1) * (int_sqrt n + 1)"
proof (induction n)
  case 0
  show ?case by simp
next
  case (Suc n)
  then show ?case by (auto simp: Let_def)
qed

lemma int_sqrt_pos: "1 \<le> n \<Longrightarrow> 1 \<le> int_sqrt n"
  using int_sqrt_bounds [of n] by (cases "int_sqrt n") auto

lemma grid_cols_bounds:
  assumes "1 \<le> n"
  shows "n \<le> grid_cols n * grid_cols n" and "(grid_cols n - 1) * (grid_cols n - 1) < n"
    and "1 \<le> grid_cols n"
proof -
  let ?k = "int_sqrt n"
  have b: "?k * ?k \<le> n" "n < (?k + 1) * (?k + 1)" using int_sqrt_bounds [of n] by auto
  have p: "1 \<le> ?k" using assms by (rule int_sqrt_pos)
  show "n \<le> grid_cols n * grid_cols n"
    using b by (auto simp: grid_cols_def Let_def power2_eq_square)
  show "(grid_cols n - 1) * (grid_cols n - 1) < n"
  proof (cases "?k * ?k < n")
    case True
    then show ?thesis by (simp add: grid_cols_def Let_def power2_eq_square)
  next
    case False
    with b have e: "?k * ?k = n" by simp
    have "(?k - 1) * (?k - 1) < ?k * ?k"
      using p by (cases ?k) auto
    with e False show ?thesis by (simp add: grid_cols_def Let_def power2_eq_square)
  qed
  show "1 \<le> grid_cols n" using p by (simp add: grid_cols_def Let_def)
qed

lemma grid_rows_bounds:
  assumes "1 \<le> n"
  shows "n \<le> grid_cols n * grid_rows n" and "grid_cols n * (grid_rows n - 1) < n"
    and "grid_rows n \<le> grid_cols n" and "grid_cols n \<le> grid_rows n + 1"
proof -
  let ?k = "int_sqrt n"
  have b: "?k * ?k \<le> n" "n < (?k + 1) * (?k + 1)" using int_sqrt_bounds [of n] by auto
  have p: "1 \<le> ?k" using assms by (rule int_sqrt_pos)
  obtain j where j: "?k = Suc j" using p by (cases ?k) auto
  show "n \<le> grid_cols n * grid_rows n"
    using b by (auto simp: grid_cols_def grid_rows_def Let_def power2_eq_square)
  show "grid_cols n * (grid_rows n - 1) < n"
    using b j by (auto simp: grid_cols_def grid_rows_def Let_def power2_eq_square)
  show "grid_rows n \<le> grid_cols n"
    using b by (auto simp: grid_cols_def grid_rows_def Let_def power2_eq_square)
  show "grid_cols n \<le> grid_rows n + 1"
    by (auto simp: grid_cols_def grid_rows_def Let_def)
qed

lemma length_create_buttons: "length (create_buttons n) = n"
  by (simp add: create_buttons_def)

lemma nth_create_buttons: "i < n \<Longrightarrow> create_buttons n ! i = make_button n i"
  by (simp add: create_buttons_def)

lemma make_button_disjoint:
  assumes c: "0 < grid_cols n" and ne: "i \<noteq> j"
  shows "\<not> (collidepoint (brect (make_button n i)) pos \<and> collidepoint (brect (make_button n j)) pos)"
proof -
  let ?c = "grid_cols n"
  have "i mod ?c \<noteq> j mod ?c \<or> i div ?c \<noteq> j div ?c"
    using ne by (metis div_mult_mod_eq)
  then show ?thesis
  proof
    assume "i mod ?c \<noteq> j mod ?c"
    then have "int (i mod ?c) < int (j mod ?c) \<or> int (j mod ?c) < int (i mod ?c)" by linarith
    then show ?thesis
      by (auto simp: make_button_def collidepoint_def Let_def BUTTON_SIZE_def BUTTON_PADDING_def)
  next
    assume "i div ?c \<noteq> j div ?c"
    then have "int (i div ?c) < int (j div ?c) \<or> int (j div ?c) < int (i div ?c)" by linarith
    then show ?thesis
      by (auto simp: make_button_def collidepoint_def Let_def BUTTON_SIZE_def BUTTON_PADDING_def)
  qed
qed

lemma row_in_grid:
  assumes "1 \<le> n" "i < n"
  shows "i div grid_cols n < grid_rows n"
proof -
  have "i < grid_cols n * grid_rows n" using grid_rows_bounds(1) [OF assms(1)] assms(2) by simp
  then show ?thesis by (simp add: less_mult_imp_div_less mult.commute)
qed

section \<open>The recall phase changes nothing but \<open>user_sequence\<close>\<close>

lemma handle_event_game:
  "handle_event idx (g, ui, r) ev = Some (g', ui', r') \<Longrightarrow>
     g' = g\<lparr>user_sequence := user_sequence g'\<rparr>"
  by (cases ev) (auto split: option.splits)

lemma process_events_game:
  "process_events idx (g, ui, r) evs = Some (g', ui', r') \<Longrightarrow>
     g' = g\<lparr>user_sequence := user_sequence g'\<rparr>"
proof (induction evs arbitrary: g ui r)
  case Nil
  then show ?case by simp
next
  case (Cons ev evs)
  from Cons.prems obtain g1 ui1 r1 where
    h: "handle_event idx (g, ui, r) ev = Some (g1, ui1, r1)"
    and p: "process_events idx (g1, ui1, r1) evs = Some (g', ui', r')"
    by (auto split: option.splits)
  have a: "g1 = g\<lparr>user_sequence := user_sequence g1\<rparr>" using h by (rule handle_event_game)
  have b: "g' = g1\<lparr>user_sequence := user_sequence g'\<rparr>" using p by (rule Cons.IH)
  show ?case by (subst b, subst a) simp
qed

lemma await_input_game:
  "await_input idx g r polls = AGot g' r' polls' \<Longrightarrow> g' = g\<lparr>user_sequence := user_sequence g'\<rparr>"
  "await_input idx g r polls = AWaiting g' \<Longrightarrow> g' = g\<lparr>user_sequence := user_sequence g'\<rparr>"
proof (induction polls arbitrary: g r)
  case Nil
  { case 1 then show ?case by simp }
  { case 2 then show ?case by auto }
next
  case (Cons batch polls)
  { case 1
    show ?case
    proof (cases "process_events idx (g, None, r) batch")
      case None
      with 1 show ?thesis by simp
    next
      case (Some s)
      obtain g1 ui1 r1 where s: "s = (g1, ui1, r1)" by (cases s) auto
      have a: "g1 = g\<lparr>user_sequence := user_sequence g1\<rparr>"
        using Some s process_events_game by blast
      show ?thesis
      proof (cases ui1)
        case None
        with 1 Some s have "await_input idx g1 r1 polls = AGot g' r' polls'" by simp
        then have b: "g' = g1\<lparr>user_sequence := user_sequence g'\<rparr>" by (rule Cons.IH(1))
        show ?thesis by (subst b, subst a) simp
      next
        case (Some v)
        with 1 \<open>process_events idx (g, None, r) batch = Some s\<close> s have "g' = g1" by simp
        with a show ?thesis by simp
      qed
    qed }
  { case 2
    show ?case
    proof (cases "process_events idx (g, None, r) batch")
      case None
      with 2 show ?thesis by simp
    next
      case (Some s)
      obtain g1 ui1 r1 where s: "s = (g1, ui1, r1)" by (cases s) auto
      have a: "g1 = g\<lparr>user_sequence := user_sequence g1\<rparr>"
        using Some s process_events_game by blast
      show ?thesis
      proof (cases ui1)
        case None
        with 2 Some s have "await_input idx g1 r1 polls = AWaiting g'" by simp
        then have b: "g' = g1\<lparr>user_sequence := user_sequence g'\<rparr>" by (rule Cons.IH(2))
        show ?thesis by (subst b, subst a) simp
      next
        case (Some v)
        with 2 \<open>process_events idx (g, None, r) batch = Some s\<close> s show ?thesis by simp
      qed
    qed }
qed

lemma recall_game:
  "recall idxs g polls = RDone g' r' polls' \<Longrightarrow> g' = g\<lparr>user_sequence := user_sequence g'\<rparr>"
  "recall idxs g polls = RWaiting g' \<Longrightarrow> g' = g\<lparr>user_sequence := user_sequence g'\<rparr>"
proof (induction idxs arbitrary: g polls)
  case Nil
  { case 1 then show ?case by auto }
  { case 2 then show ?case by simp }
next
  case (Cons idx idxs)
  { case 1
    then obtain g1 r1 p1 where a: "await_input idx g True polls = AGot g1 r1 p1"
      and c: "(\<not> r1 \<and> g' = g1) \<or> (r1 \<and> recall idxs g1 p1 = RDone g' r' polls')"
      by (auto split: await_result.splits if_splits)
    have e: "g1 = g\<lparr>user_sequence := user_sequence g1\<rparr>" using a by (rule await_input_game(1))
    from c show ?case
    proof
      assume "\<not> r1 \<and> g' = g1" with e show ?thesis by simp
    next
      assume "r1 \<and> recall idxs g1 p1 = RDone g' r' polls'"
      then have b: "g' = g1\<lparr>user_sequence := user_sequence g'\<rparr>" using Cons.IH(1) by blast
      show ?thesis by (subst b, subst e) simp
    qed }
  { case 2
    then have c: "await_input idx g True polls = AWaiting g' \<or>
        (\<exists>g1 p1. await_input idx g True polls = AGot g1 True p1 \<and> recall idxs g1 p1 = RWaiting g')"
      by (auto split: await_result.splits if_splits)
    from c show ?case
    proof
      assume "await_input idx g True polls = AWaiting g'"
      then show ?thesis by (rule await_input_game(2))
    next
      assume "\<exists>g1 p1. await_input idx g True polls = AGot g1 True p1 \<and> recall idxs g1 p1 = RWaiting g'"
      then obtain g1 p1 where a: "await_input idx g True polls = AGot g1 True p1"
        and r: "recall idxs g1 p1 = RWaiting g'" by blast
      have e: "g1 = g\<lparr>user_sequence := user_sequence g1\<rparr>" using a by (rule await_input_game(1))
      have b: "g' = g1\<lparr>user_sequence := user_sequence g'\<rparr>" using r by (rule Cons.IH(2))
      show ?thesis by (subst b, subst e) simp
    qed }
qed

section \<open>What a round does to the game\<close>

lemma add_to_sequence_Inr:
  "add_to_sequence g e = Inr g1 \<Longrightarrow>
     \<exists>v. randint 0 (int (num_buttons g) - 1) e = Inr v \<and> g1 = g\<lparr>sequence := sequence g @ [v]\<rparr>"
  by (auto simp: add_to_sequence_def split: sum.splits)

lemma play_round_cases:
  assumes "play_round g e q polls = R" and "\<And>err. R \<noteq> Failed err"
  obtains g1 fx where "add_to_sequence g e = Inr g1" and "animate_sequence g1 = Inr fx"
    and "R = (case recall [0..<length (sequence g1)] (g1\<lparr>user_sequence := []\<rparr>)
                     (event_get_after q polls) of
                RExit \<Rightarrow> Quit
              | RWaiting g3 \<Rightarrow> Waiting g3
              | RDone g3 running polls' \<Rightarrow>
                  if \<not> running then Lost g3
                  else if Suc (score g3) mod 5 = 0 \<and> num_buttons g3 < max_buttons g3
                       then Won (add_buttons (g3\<lparr>score := Suc (score g3)\<rparr>) 2) polls'
                       else Won (g3\<lparr>score := Suc (score g3)\<rparr>) polls')"
proof (cases "add_to_sequence g e")
  case (Inl err)
  with assms show ?thesis by (auto simp: play_round_def)
next
  case (Inr g1)
  show ?thesis
  proof (cases "animate_sequence g1")
    case (Inl err)
    with Inr assms show ?thesis by (auto simp: play_round_def)
  next
    case fx: (Inr fx)
    have "R = (case recall [0..<length (sequence g1)] (g1\<lparr>user_sequence := []\<rparr>)
                     (event_get_after q polls) of
                RExit \<Rightarrow> Quit
              | RWaiting g3 \<Rightarrow> Waiting g3
              | RDone g3 running polls' \<Rightarrow>
                  if \<not> running then Lost g3
                  else if Suc (score g3) mod 5 = 0 \<and> num_buttons g3 < max_buttons g3
                       then Won (add_buttons (g3\<lparr>score := Suc (score g3)\<rparr>) 2) polls'
                       else Won (g3\<lparr>score := Suc (score g3)\<rparr>) polls')"
      using assms(1) Inr fx
      by (cases "recall [0..<length (sequence g1)] (g1\<lparr>user_sequence := []\<rparr>)
                     (event_get_after q polls)")
         (auto simp: play_round_def Let_def)
    with Inr fx that show ?thesis by blast
  qed
qed

lemma play_round_Won:
  assumes "play_round g e q polls = Won g' polls'"
  shows "\<exists>v us. randint 0 (int (num_buttons g) - 1) e = Inr v \<and>
           g' = (if Suc (score g) mod 5 = 0 \<and> num_buttons g < max_buttons g
                 then add_buttons (g\<lparr>sequence := sequence g @ [v], user_sequence := us,
                                     score := Suc (score g)\<rparr>) 2
                 else g\<lparr>sequence := sequence g @ [v], user_sequence := us,
                        score := Suc (score g)\<rparr>)"
proof -
  from assms obtain g1 fx where
    a: "add_to_sequence g e = Inr g1" and
    c: "Won g' polls' = (case recall [0..<length (sequence g1)] (g1\<lparr>user_sequence := []\<rparr>)
                     (event_get_after q polls) of
                RExit \<Rightarrow> Quit
              | RWaiting g3 \<Rightarrow> Waiting g3
              | RDone g3 running polls' \<Rightarrow>
                  if \<not> running then Lost g3
                  else if Suc (score g3) mod 5 = 0 \<and> num_buttons g3 < max_buttons g3
                       then Won (add_buttons (g3\<lparr>score := Suc (score g3)\<rparr>) 2) polls'
                       else Won (g3\<lparr>score := Suc (score g3)\<rparr>) polls')"
    by (rule play_round_cases) auto
  from a obtain v where v: "randint 0 (int (num_buttons g) - 1) e = Inr v"
    and g1: "g1 = g\<lparr>sequence := sequence g @ [v]\<rparr>"
    using add_to_sequence_Inr by blast
  from c obtain g3 where
    r: "recall [0..<length (sequence g1)] (g1\<lparr>user_sequence := []\<rparr>) (event_get_after q polls)
          = RDone g3 True polls'" and
    w: "g' = (if Suc (score g3) mod 5 = 0 \<and> num_buttons g3 < max_buttons g3
              then add_buttons (g3\<lparr>score := Suc (score g3)\<rparr>) 2
              else g3\<lparr>score := Suc (score g3)\<rparr>)"
    by (cases "recall [0..<length (sequence g1)] (g1\<lparr>user_sequence := []\<rparr>) (event_get_after q polls)")
       (simp_all split: if_splits)
  have "g3 = (g1\<lparr>user_sequence := []\<rparr>)\<lparr>user_sequence := user_sequence g3\<rparr>"
    using r by (rule recall_game(1))
  then have g3: "g3 = g\<lparr>sequence := sequence g @ [v], user_sequence := user_sequence g3\<rparr>"
    using g1 by simp
  have s: "score g3 = score g" "num_buttons g3 = num_buttons g" "max_buttons g3 = max_buttons g"
    by (subst g3, simp)+
  have u: "g3\<lparr>score := Suc (score g)\<rparr> =
      g\<lparr>sequence := sequence g @ [v], user_sequence := user_sequence g3, score := Suc (score g)\<rparr>"
    by (subst g3) simp
  have "g' = (if Suc (score g) mod 5 = 0 \<and> num_buttons g < max_buttons g
                 then add_buttons (g\<lparr>sequence := sequence g @ [v], user_sequence := user_sequence g3,
                                     score := Suc (score g)\<rparr>) 2
                 else g\<lparr>sequence := sequence g @ [v], user_sequence := user_sequence g3,
                        score := Suc (score g)\<rparr>)"
    using w unfolding s u .
  with v show ?thesis by blast
qed

lemma play_round_Lost:
  assumes "play_round g e q polls = Lost g'"
  shows "\<exists>v us. randint 0 (int (num_buttons g) - 1) e = Inr v \<and>
           g' = g\<lparr>sequence := sequence g @ [v], user_sequence := us\<rparr>"
proof -
  from assms obtain g1 polls' where
    a: "add_to_sequence g e = Inr g1" and
    r: "recall [0..<length (sequence g1)] (g1\<lparr>user_sequence := []\<rparr>) (event_get_after q polls)
          = RDone g' False polls'"
    by (auto simp: play_round_def Let_def split: sum.splits recall_result.splits if_splits)
  from a obtain v where v: "randint 0 (int (num_buttons g) - 1) e = Inr v"
    and g1: "g1 = g\<lparr>sequence := sequence g @ [v]\<rparr>"
    using add_to_sequence_Inr by blast
  have "g' = (g1\<lparr>user_sequence := []\<rparr>)\<lparr>user_sequence := user_sequence g'\<rparr>"
    using r by (rule recall_game(1))
  then have "g' = g\<lparr>sequence := sequence g @ [v], user_sequence := user_sequence g'\<rparr>"
    using g1 by simp
  with v show ?thesis by blast
qed

lemma play_round_Waiting:
  assumes "play_round g e q polls = Waiting g'"
  shows "\<exists>v us. randint 0 (int (num_buttons g) - 1) e = Inr v \<and>
           g' = g\<lparr>sequence := sequence g @ [v], user_sequence := us\<rparr>"
proof -
  from assms obtain g1 where
    a: "add_to_sequence g e = Inr g1" and
    r: "recall [0..<length (sequence g1)] (g1\<lparr>user_sequence := []\<rparr>) (event_get_after q polls)
          = RWaiting g'"
    by (auto simp: play_round_def Let_def split: sum.splits recall_result.splits if_splits)
  from a obtain v where v: "randint 0 (int (num_buttons g) - 1) e = Inr v"
    and g1: "g1 = g\<lparr>sequence := sequence g @ [v]\<rparr>"
    using add_to_sequence_Inr by blast
  have "g' = (g1\<lparr>user_sequence := []\<rparr>)\<lparr>user_sequence := user_sequence g'\<rparr>"
    using r by (rule recall_game(2))
  then have "g' = g\<lparr>sequence := sequence g @ [v], user_sequence := user_sequence g'\<rparr>"
    using g1 by simp
  with v show ?thesis by blast
qed

lemma randint_range: "randint a b e = Inr v \<Longrightarrow> a \<le> v \<and> v \<le> b"
proof -
  assume h: "randint a b e = Inr v"
  then have ab: "a \<le> b" and v: "v = a + int e mod (b - a + 1)"
    by (auto simp: randint_def split: if_splits)
  have "0 < b - a + 1" using ab by linarith
  then have "0 \<le> int e mod (b - a + 1) \<and> int e mod (b - a + 1) < b - a + 1"
    using pos_mod_sign pos_mod_bound by blast
  with v show ?thesis by linarith
qed

section \<open>Invariants of a session\<close>

lemma add_buttons_loop_ge: "num \<le> add_buttons_loop c num mx"
proof (induction c arbitrary: num)
  case 0
  show ?case by simp
next
  case (Suc c)
  have "num \<le> (if num < mx then num + 1 else num)" by simp
  also have "\<dots> \<le> add_buttons_loop c (if num < mx then num + 1 else num) mx" by (rule Suc.IH)
  finally show ?case by simp
qed

lemma add_buttons_simps:
  "num_buttons (add_buttons g c) = add_buttons_loop c (num_buttons g) (max_buttons g)"
  "buttons (add_buttons g c) = create_buttons (num_buttons (add_buttons g c))"
  "sequence (add_buttons g c) = sequence g"
  "score (add_buttons g c) = score g"
  "max_buttons (add_buttons g c) = max_buttons g"
  "difficulty (add_buttons g c) = difficulty g"
  "display_speed (add_buttons g c) = display_speed g"
  "fast_display_speed (add_buttons g c) = fast_display_speed g"
  by (simp_all add: add_buttons_def Let_def)

lemma in_bounds_reset: "in_bounds (reset_game g)"
  by (simp add: in_bounds_def reset_game_def length_create_buttons)

lemma in_bounds_Won:
  assumes "in_bounds g" and "play_round g e q polls = Won g' polls'"
  shows "in_bounds g'"
proof -
  from play_round_Won [OF assms(2)] obtain v us where
    v: "randint 0 (int (num_buttons g) - 1) e = Inr v" and
    g': "g' = (if Suc (score g) mod 5 = 0 \<and> num_buttons g < max_buttons g
                 then add_buttons (g\<lparr>sequence := sequence g @ [v], user_sequence := us,
                                     score := Suc (score g)\<rparr>) 2
                 else g\<lparr>sequence := sequence g @ [v], user_sequence := us,
                        score := Suc (score g)\<rparr>)" by blast
  let ?g4 = "g\<lparr>sequence := sequence g @ [v], user_sequence := us, score := Suc (score g)\<rparr>"
  have r: "0 \<le> v \<and> v < int (num_buttons g)" using randint_range [OF v] by simp
  have b4: "in_bounds ?g4" using assms(1) r by (simp add: in_bounds_def)
  show ?thesis
  proof (cases "Suc (score g) mod 5 = 0 \<and> num_buttons g < max_buttons g")
    case False
    with g' b4 show ?thesis by simp
  next
    case True
    then have e: "g' = add_buttons ?g4 2" using g' by simp
    have ge: "num_buttons g \<le> num_buttons (add_buttons ?g4 2)"
      by (simp add: add_buttons_simps add_buttons_loop_ge)
    have "list_all (\<lambda>v. 0 \<le> v \<and> v < int (num_buttons (add_buttons ?g4 2))) (sequence ?g4)"
      using b4 ge by (auto simp: in_bounds_def list_all_iff)
    then show ?thesis
      using b4 ge unfolding e in_bounds_def
      by (simp add: add_buttons_simps length_create_buttons)
  qed
qed

lemma animate_loop_ok:
  assumes "list_all (\<lambda>v. 0 \<le> v \<and> v < int (length (buttons g))) ids"
  shows "\<exists>fx. animate_loop g ids = Inr fx"
  using assms
proof (induction ids)
  case Nil
  show ?case by simp
next
  case (Cons i ids)
  then obtain fx where "animate_loop g ids = Inr fx" by auto
  moreover have "py_index (buttons g) i = Inr (buttons g ! nat i)"
    using Cons.prems by (simp add: py_index_def)
  ultimately show ?case by simp
qed

lemma play_round_not_Failed:
  assumes "in_bounds g"
  shows "play_round g e q polls \<noteq> Failed err"
proof -
  have "\<not> int (num_buttons g) - 1 < 0" using assms by (simp add: in_bounds_def)
  then obtain v where v: "randint 0 (int (num_buttons g) - 1) e = Inr v"
    by (simp add: randint_def)
  let ?g1 = "g\<lparr>sequence := sequence g @ [v]\<rparr>"
  have a: "add_to_sequence g e = Inr ?g1" using v by (simp add: add_to_sequence_def)
  have r: "0 \<le> v \<and> v < int (num_buttons g)" using randint_range [OF v] by simp
  have "list_all (\<lambda>v. 0 \<le> v \<and> v < int (length (buttons ?g1))) (sequence ?g1)"
    using assms r by (simp add: in_bounds_def)
  then obtain fx where fx: "animate_sequence ?g1 = Inr fx"
    unfolding animate_sequence_def using animate_loop_ok by blast
  show ?thesis
    using a fx
    by (cases "recall [0..<length (sequence ?g1)] (?g1\<lparr>user_sequence := []\<rparr>)
                     (event_get_after q polls)")
       (auto simp: play_round_def Let_def)
qed

lemma rounds_final:
  assumes "I g"
    and "\<forall>h e q ps h' ps'. I h \<longrightarrow> play_round h e q ps = Won h' ps' \<longrightarrow> I h'"
  shows "(\<exists>s. rounds g ins polls = AtRoundStart s \<and> I s) \<or>
         (\<exists>s e q p. I s \<and>
            ((\<exists>s'. play_round s e q p = Lost s' \<and>
                   rounds g ins polls = Returned (s'\<lparr>state := ''GAME_OVER''\<rparr>)) \<or>
             (\<exists>s'. play_round s e q p = Waiting s' \<and> rounds g ins polls = InRecall s') \<or>
             (play_round s e q p = Quit \<and> rounds g ins polls = Exited) \<or>
             (\<exists>err. play_round s e q p = Failed err \<and> rounds g ins polls = Raised err)))"
  using assms(1)
proof (induction ins arbitrary: g polls)
  case Nil
  then show ?case by simp
next
  case (Cons a ins)
  obtain e q where a: "a = (e, q)" by (cases a) auto
  show ?case
  proof (cases "play_round g e q polls")
    case (Won g' polls')
    have "I g'" using Cons.prems Won assms(2) by blast
    from Cons.IH [OF this, of polls'] show ?thesis using Won a by simp
  next
    case (Lost s')
    with Cons.prems a show ?thesis by (intro disjI2) (simp, blast)
  next
    case (Waiting s')
    with Cons.prems a show ?thesis by (intro disjI2) (simp, blast)
  next
    case Quit
    with Cons.prems a show ?thesis by (intro disjI2) (simp, blast)
  next
    case (Failed err)
    with Cons.prems a show ?thesis by (intro disjI2) (simp, blast)
  qed
qed

lemma rounds_in_bounds_no_raise:
  assumes "in_bounds g"
  shows "rounds g ins polls \<noteq> Raised err"
proof
  assume r: "rounds g ins polls = Raised err"
  have step: "\<forall>h e q ps h' ps'.
      in_bounds h \<longrightarrow> play_round h e q ps = Won h' ps' \<longrightarrow> in_bounds h'"
    using in_bounds_Won by blast
  from rounds_final [where I = in_bounds and ins = ins and polls = polls, OF assms step] r
  obtain s e q p where "in_bounds s" and "play_round s e q p = Failed err"
    by auto
  then show False using play_round_not_Failed by blast
qed

lemma rounds_score:
  "rounds g ins polls = AtRoundStart s \<Longrightarrow> score s = score g + length ins"
proof (induction ins arbitrary: g polls)
  case Nil
  then show ?case by simp
next
  case (Cons a ins)
  obtain e q where a: "a = (e, q)" by (cases a) auto
  from Cons.prems a obtain g' polls' where w: "play_round g e q polls = Won g' polls'"
    and r: "rounds g' ins polls' = AtRoundStart s"
    by (cases "play_round g e q polls") auto
  have "score g' = Suc (score g)"
    using play_round_Won [OF w] by (auto simp: add_buttons_simps)
  with Cons.IH [OF r] show ?case by simp
qed

lemma in_bounds_unfinished:
  assumes "in_bounds g" and "play_round g e q polls = Lost g' \<or> play_round g e q polls = Waiting g'"
  shows "in_bounds g'"
proof -
  from assms(2) play_round_Lost play_round_Waiting obtain v us where
    v: "randint 0 (int (num_buttons g) - 1) e = Inr v" and
    g': "g' = g\<lparr>sequence := sequence g @ [v], user_sequence := us\<rparr>" by blast
  have "0 \<le> v \<and> v < int (num_buttons g)" using randint_range [OF v] by simp
  then show ?thesis using assms(1) unfolding g' by (simp add: in_bounds_def)
qed

lemma in_bounds_state: "in_bounds (g\<lparr>state := st\<rparr>) = in_bounds g"
  by (simp add: in_bounds_def)

lemma rounds_in_bounds:
  assumes "in_bounds g" and "final_game (rounds g ins polls) = Some s"
  shows "in_bounds s"
proof -
  have step: "\<forall>h e q ps h' ps'.
      in_bounds h \<longrightarrow> play_round h e q ps = Won h' ps' \<longrightarrow> in_bounds h'"
    using in_bounds_Won by blast
  from rounds_final [where I = in_bounds and ins = ins and polls = polls, OF assms(1) step]
  show ?thesis
  proof (elim disjE exE conjE)
    fix t assume "rounds g ins polls = AtRoundStart t" "in_bounds t"
    with assms(2) show ?thesis by simp
  next
    fix t e q p t'
    assume "in_bounds t" "play_round t e q p = Lost t'"
      "rounds g ins polls = Returned (t'\<lparr>state := ''GAME_OVER''\<rparr>)"
    with assms(2) in_bounds_unfinished [of t e q p t'] show ?thesis
      by (auto simp: in_bounds_state)
  next
    fix t e q p t'
    assume "in_bounds t" "play_round t e q p = Waiting t'" "rounds g ins polls = InRecall t'"
    with assms(2) in_bounds_unfinished [of t e q p t'] show ?thesis by auto
  next
    fix t e q p
    assume "rounds g ins polls = Exited"
    with assms(2) show ?thesis by simp
  next
    fix t e q p err
    assume "rounds g ins polls = Raised err"
    with assms(2) show ?thesis by simp
  qed
qed

lemma in_bounds_animate: "in_bounds s \<Longrightarrow> \<exists>fx. animate_sequence s = Inr fx"
  unfolding animate_sequence_def by (rule animate_loop_ok) (simp add: in_bounds_def)

lemma in_bounds_add_to_sequence:
  assumes "in_bounds s"
  shows "\<exists>v. add_to_sequence s e = Inr (s\<lparr>sequence := sequence s @ [v]\<rparr>) \<and>
           0 \<le> v \<and> v < int (num_buttons s)"
proof -
  have "\<not> int (num_buttons s) - 1 < 0" using assms by (simp add: in_bounds_def)
  then obtain v where v: "randint 0 (int (num_buttons s) - 1) e = Inr v"
    by (simp add: randint_def)
  have "0 \<le> v \<and> v < int (num_buttons s)" using randint_range [OF v] by simp
  moreover have "add_to_sequence s e = Inr (s\<lparr>sequence := sequence s @ [v]\<rparr>)"
    using v by (simp add: add_to_sequence_def)
  ultimately show ?thesis by blast
qed

lemma Won_num_buttons_mono:
  assumes "play_round s e q ps = Won s' ps'"
  shows "num_buttons s \<le> num_buttons s'"
  using play_round_Won [OF assms] by (auto simp: add_buttons_simps add_buttons_loop_ge)

section \<open>Indexing the buttons during playback\<close>

text \<open>
  Claim C10. In a session every element of the sequence is at least 0 and below the
  number of buttons that was current when it was appended, the number of buttons never
  decreases from one round to the next, and so \<open>self.buttons[button_id]\<close> in
  \<open>animate_sequence\<close> never raises \<open>IndexError\<close>: \<open>run_gameplay\<close> raises no
  exception on any input, and in every state \<open>s\<close> it reaches the sequence indexes the
  buttons, the playback succeeds, and the next element appended is below
  \<open>num_buttons s\<close>.
\<close>

theorem playback_index_in_bounds:
  "run_gameplay g ins polls \<noteq> Raised err \<and>
   (final_game (run_gameplay g ins polls) = Some s \<longrightarrow>
      in_bounds s \<and>
      (\<exists>fx. animate_sequence s = Inr fx) \<and>
      (\<exists>v. add_to_sequence s e = Inr (s\<lparr>sequence := sequence s @ [v]\<rparr>) \<and>
            0 \<le> v \<and> v < int (num_buttons s)) \<and>
      (play_round s e q ps = Won s' ps' \<longrightarrow> num_buttons s \<le> num_buttons s'))"
proof (intro conjI impI)
  show "run_gameplay g ins polls \<noteq> Raised err"
    unfolding run_gameplay_def by (rule rounds_in_bounds_no_raise) (rule in_bounds_reset)
next
  assume f: "final_game (run_gameplay g ins polls) = Some s"
  show b: "in_bounds s"
    using in_bounds_reset f unfolding run_gameplay_def by (rule rounds_in_bounds)
  show "\<exists>fx. animate_sequence s = Inr fx" using b by (rule in_bounds_animate)
  show "\<exists>v. add_to_sequence s e = Inr (s\<lparr>sequence := sequence s @ [v]\<rparr>) \<and>
            0 \<le> v \<and> v < int (num_buttons s)"
    using b by (rule in_bounds_add_to_sequence)
next
  assume "play_round s e q ps = Won s' ps'"
  then show "num_buttons s \<le> num_buttons s'" by (rule Won_num_buttons_mono)
qed

lemma first_round_run:
  "run_gameplay init_game [(2, [])] [[MOUSEBUTTONDOWN (240, 320)]] = AtRoundStart after_first_round"
  by code_simp

lemma second_round_run:
  "play_round after_first_round 1 [] [[MOUSEBUTTONDOWN (240, 320)], [MOUSEBUTTONDOWN (420, 140)]]
     = Won after_second_round []"
  by code_simp

theorem playback_index_in_bounds_witness:
  "final_game (run_gameplay init_game [(2, [])] [[MOUSEBUTTONDOWN (240, 320)]])
     = Some after_first_round \<and>
   play_round after_first_round 1 [] [[MOUSEBUTTONDOWN (240, 320)], [MOUSEBUTTONDOWN (420, 140)]]
     = Won after_second_round [] \<and>
   run_gameplay init_game [(2, [])] [[MOUSEBUTTONDOWN (240, 320)]] \<noteq> Raised IndexError \<and>
   in_bounds after_first_round \<and>
   (\<exists>fx. animate_sequence after_first_round = Inr fx) \<and>
   (\<exists>v. add_to_sequence after_first_round 1
           = Inr (after_first_round\<lparr>sequence := sequence after_first_round @ [v]\<rparr>) \<and>
         0 \<le> v \<and> v < int (num_buttons after_first_round)) \<and>
   num_buttons after_first_round \<le> num_buttons after_second_round"
  using playback_index_in_bounds [of init_game "[(2, [])]" "[[MOUSEBUTTONDOWN (240, 320)]]"
      IndexError after_first_round 1 "[]"
      "[[MOUSEBUTTONDOWN (240, 320)], [MOUSEBUTTONDOWN (420, 140)]]" after_second_round "[]"]
    first_round_run second_round_run
  by simp

section \<open>The length of the sequence and the score\<close>

lemma counted_reset: "counted (reset_game g)"
  by (simp add: counted_def reset_game_def)

lemma Won_sequence_score:
  assumes "play_round s e q ps = Won s' ps'"
  shows "score s' = score s + 1 \<and> (\<exists>v. sequence s' = sequence s @ [v])"
  using play_round_Won [OF assms] by (auto simp: add_buttons_simps)

lemma unfinished_sequence_score:
  assumes "play_round s e q ps = Lost s' \<or> play_round s e q ps = Waiting s'"
  shows "score s' = score s \<and> (\<exists>v. sequence s' = sequence s @ [v])"
proof -
  from assms play_round_Lost play_round_Waiting obtain v us where
    "s' = s\<lparr>sequence := sequence s @ [v], user_sequence := us\<rparr>" by blast
  then show ?thesis by simp
qed

lemma counted_Won: "counted s \<Longrightarrow> play_round s e q ps = Won s' ps' \<Longrightarrow> counted s'"
  using Won_sequence_score [of s e q ps s' ps'] by (auto simp: counted_def)

lemma rounds_counted:
  assumes "counted g"
  shows "(rounds g ins polls = AtRoundStart s \<longrightarrow> length (sequence s) = score s) \<and>
         (rounds g ins polls = InRecall s \<longrightarrow> length (sequence s) = score s + 1) \<and>
         (rounds g ins polls = Returned s \<longrightarrow> length (sequence s) = score s + 1)"
proof -
  have step: "\<forall>h e q ps h' ps'. counted h \<longrightarrow> play_round h e q ps = Won h' ps' \<longrightarrow> counted h'"
    using counted_Won by blast
  from rounds_final [where I = counted and ins = ins and polls = polls, OF assms step]
  show ?thesis
  proof (elim disjE exE conjE)
    fix t assume "rounds g ins polls = AtRoundStart t" "counted t"
    then show ?thesis by (auto simp: counted_def)
  next
    fix t e q p t'
    assume "counted t" "play_round t e q p = Lost t'"
      "rounds g ins polls = Returned (t'\<lparr>state := ''GAME_OVER''\<rparr>)"
    with unfinished_sequence_score [of t e q p t'] show ?thesis
      by (auto simp: counted_def)
  next
    fix t e q p t'
    assume "counted t" "play_round t e q p = Waiting t'" "rounds g ins polls = InRecall t'"
    with unfinished_sequence_score [of t e q p t'] show ?thesis
      by (auto simp: counted_def)
  next
    fix t e q p
    assume "rounds g ins polls = Exited"
    then show ?thesis by simp
  next
    fix t e q p err
    assume "rounds g ins polls = Raised err"
    then show ?thesis by simp
  qed
qed

text \<open>
  Claim C5. Throughout the recall phase of every round the sequence has
  \<open>score + 1\<close> elements. Whenever \<open>run_gameplay\<close> waits for a click, and when it
  returns after a wrong click, \<open>length sequence = score + 1\<close>; at the head of a round
  the two are equal and the score is the number of rounds played. A round appends exactly
  one element before its recall phase, and a round whose recall is completed raises the
  score by exactly one.
\<close>

theorem sequence_length_is_score_plus_one:
  "(run_gameplay g ins polls = InRecall s \<longrightarrow> length (sequence s) = score s + 1) \<and>
   (run_gameplay g ins polls = Returned s \<longrightarrow> length (sequence s) = score s + 1) \<and>
   (run_gameplay g ins polls = AtRoundStart s \<longrightarrow>
      length (sequence s) = score s \<and> score s = length ins \<and>
      (play_round s e q ps = Won s' ps' \<longrightarrow>
         score s' = score s + 1 \<and> (\<exists>v. sequence s' = sequence s @ [v])) \<and>
      (play_round s e q ps = Waiting w \<longrightarrow>
         score w = score s \<and> (\<exists>v. sequence w = sequence s @ [v]) \<and>
         length (sequence w) = score w + 1))"
proof -
  have c: "counted (reset_game g)" by (rule counted_reset)
  have r: "run_gameplay g ins polls = AtRoundStart s \<Longrightarrow> score s = length ins"
    unfolding run_gameplay_def using rounds_score [of "reset_game g" ins polls s]
    by (simp add: reset_game_def)
  have w: "play_round s e q ps = Won s' ps' \<Longrightarrow>
      score s' = score s + 1 \<and> (\<exists>v. sequence s' = sequence s @ [v])"
    by (rule Won_sequence_score)
  have u: "play_round s e q ps = Waiting w \<Longrightarrow>
      score w = score s \<and> (\<exists>v. sequence w = sequence s @ [v])"
    using unfinished_sequence_score [of s e q ps w] by simp
  have l: "run_gameplay g ins polls = AtRoundStart s \<Longrightarrow> length (sequence s) = score s"
    using rounds_counted [OF c, of ins polls s] by (simp add: run_gameplay_def)
  show ?thesis
    using rounds_counted [OF c, of ins polls s] r w u l
    unfolding run_gameplay_def by auto
qed

lemma second_round_waiting:
  "play_round after_first_round 1 [] [] = Waiting waiting_second_round"
  by code_simp

lemma second_round_inrecall:
  "run_gameplay init_game [(2, []), (1, [])] [[MOUSEBUTTONDOWN (240, 320)]]
     = InRecall waiting_second_round"
  by code_simp

theorem sequence_length_is_score_plus_one_witness:
  "run_gameplay init_game [(2, [])] [[MOUSEBUTTONDOWN (240, 320)]] = AtRoundStart after_first_round \<and>
   play_round after_first_round 1 [] [] = Waiting waiting_second_round \<and>
   play_round after_first_round 1 [] [[MOUSEBUTTONDOWN (240, 320)], [MOUSEBUTTONDOWN (420, 140)]]
     = Won after_second_round [] \<and>
   run_gameplay init_game [(2, []), (1, [])] [[MOUSEBUTTONDOWN (240, 320)]]
     = InRecall waiting_second_round \<and>
   length (sequence after_first_round) = score after_first_round \<and>
   score after_first_round = length [(2::nat, []::event list)] \<and>
   score after_second_round = score after_first_round + 1 \<and>
   (\<exists>v. sequence after_second_round = sequence after_first_round @ [v]) \<and>
   score waiting_second_round = score after_first_round \<and>
   (\<exists>v. sequence waiting_second_round = sequence after_first_round @ [v]) \<and>
   length (sequence waiting_second_round) = score waiting_second_round + 1"
  using
    sequence_length_is_score_plus_one [where g = init_game and ins = "[(2, [])]"
      and polls = "[[MOUSEBUTTONDOWN (240, 320)]]" and s = after_first_round and e = 1
      and q = "[]" and ps = "[]" and w = waiting_second_round]
    sequence_length_is_score_plus_one [where g = init_game and ins = "[(2, [])]"
      and polls = "[[MOUSEBUTTONDOWN (240, 320)]]" and s = after_first_round and e = 1
      and q = "[]" and ps = "[[MOUSEBUTTONDOWN (240, 320)], [MOUSEBUTTONDOWN (420, 140)]]"
      and s' = after_second_round and ps' = "[]"]
    sequence_length_is_score_plus_one [where g = init_game and ins = "[(2, []), (1, [])]"
      and polls = "[[MOUSEBUTTONDOWN (240, 320)]]" and s = waiting_second_round]
    first_round_run second_round_waiting second_round_run second_round_inrecall
  by simp

section \<open>Growth of the grid\<close>

lemma add_buttons_loop_two:
  "add_buttons_loop 2 n m = (if n < m then (if n + 1 < m then n + 2 else n + 1) else n)"
  by (simp add: numeral_2_eq_2)

lemma Won_num_buttons:
  assumes "play_round g e q ps = Won g' ps'"
  shows "score g' = score g + 1 \<and> max_buttons g' = max_buttons g \<and>
         num_buttons g' = (if score g' mod 5 = 0 \<and> num_buttons g < max_buttons g
                           then min (num_buttons g + 2) (max_buttons g) else num_buttons g)"
proof -
  from play_round_Won [OF assms] obtain v us where
    g': "g' = (if Suc (score g) mod 5 = 0 \<and> num_buttons g < max_buttons g
                 then add_buttons (g\<lparr>sequence := sequence g @ [v], user_sequence := us,
                                     score := Suc (score g)\<rparr>) 2
                 else g\<lparr>sequence := sequence g @ [v], user_sequence := us,
                        score := Suc (score g)\<rparr>)" by blast
  show ?thesis
  proof (cases "Suc (score g) mod 5 = 0 \<and> num_buttons g < max_buttons g")
    case True
    then have "g' = add_buttons (g\<lparr>sequence := sequence g @ [v], user_sequence := us,
                                     score := Suc (score g)\<rparr>) 2"
      using g' by simp
    then show ?thesis using True by (auto simp: add_buttons_simps add_buttons_loop_two)
  next
    case False
    have "g' = g\<lparr>sequence := sequence g @ [v], user_sequence := us,
                        score := Suc (score g)\<rparr>"
      using g' by (simp only: False if_False)
    then show ?thesis using False by auto
  qed
qed

lemma on_schedule_reset: "max_buttons g = MAX_BUTTONS \<Longrightarrow> on_schedule (reset_game g)"
  by (simp add: on_schedule_def reset_game_def)

lemma on_schedule_Won:
  assumes "on_schedule g" and "play_round g e q ps = Won g' ps'"
  shows "on_schedule g'"
proof -
  note w = Won_num_buttons [OF assms(2)]
  have m: "max_buttons g = 10" and n: "num_buttons g = min (4 + 2 * (score g div 5)) 10"
    using assms(1) by (simp_all add: on_schedule_def MAX_BUTTONS_def)
  have d: "(score g + 1) div 5 = (if (score g + 1) mod 5 = 0 then score g div 5 + 1 else score g div 5)"
    by presburger
  have "num_buttons g' = min (4 + 2 * (score g' div 5)) 10"
    using w m n d by (auto simp: min_def)
  with w m show ?thesis by (simp add: on_schedule_def MAX_BUTTONS_def)
qed

lemma rounds_on_schedule:
  assumes "on_schedule g" and "rounds g ins polls = AtRoundStart s"
  shows "on_schedule s"
proof -
  have step: "\<forall>h e q ps h' ps'.
      on_schedule h \<longrightarrow> play_round h e q ps = Won h' ps' \<longrightarrow> on_schedule h'"
    using on_schedule_Won by blast
  from rounds_final [where I = on_schedule and ins = ins and polls = polls, OF assms(1) step]
    assms(2)
  show ?thesis by auto
qed

text \<open>
  Claim C2. With \<open>max_buttons = 10\<close> a session starts with 4 buttons, and after
  \<open>k\<close> rounds answered correctly it has \<open>min (4 + 2 * (k div 5)) 10\<close>: 6 after 5 rounds,
  8 after 10, 10 after 15 and still 10 after 20. A round that is answered correctly
  adds exactly 2 buttons when the new score is a multiple of 5 and the count is below the
  maximum, and leaves the count alone otherwise; the count never exceeds the maximum.
\<close>

theorem grid_growth_schedule:
  assumes "max_buttons g0 = MAX_BUTTONS"
    and "run_gameplay g0 ins polls = AtRoundStart g"
  shows "score g = length ins \<and>
         num_buttons g = min (4 + 2 * (length ins div 5)) 10 \<and>
         (length ins = 0 \<longrightarrow> num_buttons g = 4) \<and>
         (length ins = 5 \<longrightarrow> num_buttons g = 6) \<and>
         (length ins = 10 \<longrightarrow> num_buttons g = 8) \<and>
         (length ins = 15 \<longrightarrow> num_buttons g = 10) \<and>
         (length ins = 20 \<longrightarrow> num_buttons g = 10) \<and>
         (play_round g e q ps = Won g' ps' \<longrightarrow>
            score g' = score g + 1 \<and>
            num_buttons g' = (if score g' mod 5 = 0 \<and> num_buttons g < max_buttons g
                              then num_buttons g + 2 else num_buttons g) \<and>
            num_buttons g' \<le> max_buttons g' \<and>
            (num_buttons g = max_buttons g \<longrightarrow> num_buttons g' = num_buttons g))"
proof -
  have sc: "score g = length ins"
    using rounds_score [of "reset_game g0" ins polls g] assms(2)
    by (simp add: run_gameplay_def reset_game_def)
  have os: "on_schedule g"
    using on_schedule_reset [OF assms(1)] assms(2) unfolding run_gameplay_def
    by (rule rounds_on_schedule)
  then have n: "num_buttons g = min (4 + 2 * (length ins div 5)) 10" and m: "max_buttons g = 10"
    using sc by (simp_all add: on_schedule_def MAX_BUTTONS_def)
  have w: "play_round g e q ps = Won g' ps' \<Longrightarrow>
            score g' = score g + 1 \<and>
            num_buttons g' = (if score g' mod 5 = 0 \<and> num_buttons g < max_buttons g
                              then num_buttons g + 2 else num_buttons g) \<and>
            num_buttons g' \<le> max_buttons g' \<and>
            (num_buttons g = max_buttons g \<longrightarrow> num_buttons g' = num_buttons g)"
  proof -
    assume a: "play_round g e q ps = Won g' ps'"
    note x = Won_num_buttons [OF a]
    have "num_buttons g < 10 \<Longrightarrow> num_buttons g + 2 \<le> 10" using n by arith
    with x m n show ?thesis by (auto simp: min_def)
  qed
  show ?thesis using sc n w by auto
qed

lemma four_rounds_run:
  "run_gameplay init_game (replicate 4 (0, [])) (replicate 10 [MOUSEBUTTONDOWN (240, 140)])
     = AtRoundStart after_four_rounds"
  by code_simp

lemma fifth_round_run:
  "play_round after_four_rounds 0 [] (replicate 5 [MOUSEBUTTONDOWN (240, 140)])
     = Won after_five_rounds []"
  by code_simp

theorem grid_growth_schedule_witness:
  "max_buttons init_game = MAX_BUTTONS \<and>
   run_gameplay init_game (replicate 4 (0, [])) (replicate 10 [MOUSEBUTTONDOWN (240, 140)])
     = AtRoundStart after_four_rounds \<and>
   play_round after_four_rounds 0 [] (replicate 5 [MOUSEBUTTONDOWN (240, 140)])
     = Won after_five_rounds [] \<and>
   score after_four_rounds = 4 \<and> num_buttons after_four_rounds = 4 \<and>
   score after_five_rounds = 5 \<and> num_buttons after_five_rounds = 6"
proof -
  have m: "max_buttons init_game = MAX_BUTTONS" by (simp add: init_game_def)
  from grid_growth_schedule [OF m four_rounds_run, of 0 "[]"
      "replicate 5 [MOUSEBUTTONDOWN (240, 140)]" after_five_rounds "[]"] fifth_round_run
  have "score after_four_rounds = 4 \<and> num_buttons after_four_rounds = 4 \<and>
        score after_five_rounds = 5 \<and> num_buttons after_five_rounds = 6"
    by (simp add: after_four_rounds_def init_game_def MAX_BUTTONS_def)
  with m four_rounds_run fifth_round_run show ?thesis by simp
qed

section \<open>The grid of \<open>create_buttons\<close>\<close>

lemma make_button_closed_form:
  "make_button n i =
     \<lparr>brect = \<lparr>rx = start_x n + int (i mod grid_cols n) * 180,
                ry = start_y n + int (i div grid_cols n) * 180, rw = 150, rh = 150\<rparr>,
      bid = int i\<rparr>"
  by (simp add: make_button_def Let_def BUTTON_SIZE_def BUTTON_PADDING_def)

text \<open>
  Claim C4. For every \<open>n \<ge> 1\<close>, \<open>create_buttons n\<close> has exactly \<open>n\<close> buttons, no point
  lies in two of them, and button \<open>i\<close> has identifier \<open>i\<close> and stands in row
  \<open>i div cols\<close>, column \<open>i mod cols\<close> of a grid of \<open>cols\<close> columns and \<open>rows\<close> rows
  (row-major, every row used lies inside the grid). \<open>cols\<close> is the least number whose
  square is at least \<open>n\<close>, that is the square root of \<open>n\<close> rounded up; \<open>rows\<close> is the
  least number with \<open>cols * rows \<ge> n\<close>, and it is \<open>cols\<close> or \<open>cols - 1\<close>.
\<close>

theorem create_buttons_grid:
  assumes "1 \<le> n"
  shows "length (create_buttons n) = n \<and>
         (\<forall>i<n. \<forall>j<n. i \<noteq> j \<longrightarrow>
            (\<forall>pos. \<not> (collidepoint (brect (create_buttons n ! i)) pos \<and>
                        collidepoint (brect (create_buttons n ! j)) pos))) \<and>
         (\<forall>i<n. create_buttons n ! i =
                   \<lparr>brect = \<lparr>rx = start_x n + int (i mod grid_cols n) * 180,
                              ry = start_y n + int (i div grid_cols n) * 180,
                              rw = 150, rh = 150\<rparr>,
                    bid = int i\<rparr> \<and>
                 i mod grid_cols n < grid_cols n \<and> i div grid_cols n < grid_rows n) \<and>
         n \<le> grid_cols n * grid_rows n \<and>
         (grid_cols n - 1) * (grid_cols n - 1) < n \<and> n \<le> grid_cols n * grid_cols n \<and>
         grid_cols n * (grid_rows n - 1) < n \<and>
         grid_rows n \<le> grid_cols n \<and> grid_cols n \<le> grid_rows n + 1"
proof -
  have c: "0 < grid_cols n" using grid_cols_bounds(3) [OF assms] by simp
  have d: "\<forall>i<n. \<forall>j<n. i \<noteq> j \<longrightarrow>
            (\<forall>pos. \<not> (collidepoint (brect (create_buttons n ! i)) pos \<and>
                        collidepoint (brect (create_buttons n ! j)) pos))"
    using make_button_disjoint [OF c] by (simp add: nth_create_buttons)
  have r: "\<forall>i<n. create_buttons n ! i =
                   \<lparr>brect = \<lparr>rx = start_x n + int (i mod grid_cols n) * 180,
                              ry = start_y n + int (i div grid_cols n) * 180,
                              rw = 150, rh = 150\<rparr>,
                    bid = int i\<rparr> \<and>
                 i mod grid_cols n < grid_cols n \<and> i div grid_cols n < grid_rows n"
    using c row_in_grid [OF assms]
    by (simp add: nth_create_buttons make_button_closed_form)
  note gc = grid_cols_bounds [OF assms] and gr = grid_rows_bounds [OF assms]
  show ?thesis
    by (intro conjI) (rule length_create_buttons d r gr(1) gc(2) gc(1) gr(2) gr(3) gr(4))+
qed

theorem create_buttons_grid_witness:
  "(1::nat) \<le> 5 \<and> length (create_buttons 5) = 5 \<and>
   grid_cols 5 = 3 \<and> grid_rows 5 = 2 \<and>
   (5::nat) \<le> grid_cols 5 * grid_rows 5 \<and>
   (grid_cols 5 - 1) * (grid_cols 5 - 1) < 5 \<and> 5 \<le> grid_cols 5 * grid_cols 5 \<and>
   grid_cols 5 * (grid_rows 5 - 1) < 5 \<and>
   create_buttons 5 ! 4 = \<lparr>brect = \<lparr>rx = 325, ry = 315, rw = 150, rh = 150\<rparr>, bid = 4\<rparr> \<and>
   \<not> (collidepoint (brect (create_buttons 5 ! 3)) (330, 320) \<and>
      collidepoint (brect (create_buttons 5 ! 4)) (330, 320))"
proof -
  have one: "(1::nat) \<le> 5" by simp
  have cr: "grid_cols 5 = 3 \<and> grid_rows 5 = 2" by code_simp
  have b4: "create_buttons 5 ! 4 = \<lparr>brect = \<lparr>rx = 325, ry = 315, rw = 150, rh = 150\<rparr>, bid = 4\<rparr>"
    by code_simp
  note t = create_buttons_grid [OF one]
  from t have h: "\<forall>i<5. \<forall>j<5. i \<noteq> j \<longrightarrow>
            (\<forall>pos. \<not> (collidepoint (brect (create_buttons 5 ! i)) pos \<and>
                        collidepoint (brect (create_buttons 5 ! j)) pos))"
    by (elim conjE)
  have n: "\<not> (collidepoint (brect (create_buttons 5 ! 3)) (330, 320) \<and>
      collidepoint (brect (create_buttons 5 ! 4)) (330, 320))"
    by (rule h [rule_format, of 3 4 "(330, 320)"]) simp_all
  from t have l: "length (create_buttons 5) = 5" by (elim conjE)
  have a: "(5::nat) \<le> grid_cols 5 * grid_rows 5 \<and>
   (grid_cols 5 - 1) * (grid_cols 5 - 1) < 5 \<and> 5 \<le> grid_cols 5 * grid_cols 5 \<and>
   grid_cols 5 * (grid_rows 5 - 1) < 5"
    using cr by simp
  from one l cr a b4 n show ?thesis by (intro conjI) simp_all
qed

section \<open>The layout depends on the count alone\<close>

lemma laid_out_reset: "laid_out (reset_game g)"
  by (simp add: laid_out_def reset_game_def)

lemma laid_out_Won:
  assumes "laid_out g" and "play_round g e q ps = Won g' ps'"
  shows "laid_out g'"
proof -
  from play_round_Won [OF assms(2)] obtain v us where
    g': "g' = (if Suc (score g) mod 5 = 0 \<and> num_buttons g < max_buttons g
                 then add_buttons (g\<lparr>sequence := sequence g @ [v], user_sequence := us,
                                     score := Suc (score g)\<rparr>) 2
                 else g\<lparr>sequence := sequence g @ [v], user_sequence := us,
                        score := Suc (score g)\<rparr>)" by blast
  show ?thesis
  proof (cases "Suc (score g) mod 5 = 0 \<and> num_buttons g < max_buttons g")
    case True
    then have "g' = add_buttons (g\<lparr>sequence := sequence g @ [v], user_sequence := us,
                                     score := Suc (score g)\<rparr>) 2"
      using g' by simp
    then show ?thesis by (simp add: laid_out_def add_buttons_simps)
  next
    case False
    have "g' = g\<lparr>sequence := sequence g @ [v], user_sequence := us,
                        score := Suc (score g)\<rparr>"
      using g' by (simp only: False if_False)
    then show ?thesis using assms(1) by (simp add: laid_out_def)
  qed
qed

lemma laid_out_unfinished:
  assumes "laid_out g" and "play_round g e q ps = Lost g' \<or> play_round g e q ps = Waiting g'"
  shows "laid_out g'"
proof -
  from assms(2) play_round_Lost play_round_Waiting obtain v us where
    "g' = g\<lparr>sequence := sequence g @ [v], user_sequence := us\<rparr>" by blast
  then show ?thesis using assms(1) by (simp add: laid_out_def)
qed

lemma rounds_laid_out:
  assumes "laid_out g" and "final_game (rounds g ins polls) = Some s"
  shows "laid_out s"
proof -
  have step: "\<forall>h e q ps h' ps'.
      laid_out h \<longrightarrow> play_round h e q ps = Won h' ps' \<longrightarrow> laid_out h'"
    using laid_out_Won by blast
  from rounds_final [where I = laid_out and ins = ins and polls = polls, OF assms(1) step]
  show ?thesis
  proof (elim disjE exE conjE)
    fix t assume "rounds g ins polls = AtRoundStart t" "laid_out t"
    with assms(2) show ?thesis by simp
  next
    fix t e q p t'
    assume "laid_out t" "play_round t e q p = Lost t'"
      "rounds g ins polls = Returned (t'\<lparr>state := ''GAME_OVER''\<rparr>)"
    with assms(2) laid_out_unfinished [of t e q p t'] show ?thesis
      by (auto simp: laid_out_def)
  next
    fix t e q p t'
    assume "laid_out t" "play_round t e q p = Waiting t'" "rounds g ins polls = InRecall t'"
    with assms(2) laid_out_unfinished [of t e q p t'] show ?thesis by auto
  next
    fix t e q p
    assume "rounds g ins polls = Exited"
    with assms(2) show ?thesis by simp
  next
    fix t e q p err
    assume "rounds g ins polls = Raised err"
    with assms(2) show ?thesis by simp
  qed
qed

text \<open>
  Claim C6. The layout is a function of the count and of nothing else. Whatever state a
  session is in, its buttons are \<open>create_buttons\<close> of its current count; so two states
  with the same count, reached in any two sessions after any histories, have the same
  cell bounds and the same cell identifiers, and so have the states that \<open>reset_game\<close>
  and \<open>add_buttons\<close> produce.
\<close>

theorem layout_depends_on_count_only:
  assumes "final_game (run_gameplay g ins polls) = Some s"
    and "final_game (run_gameplay g' ins' polls') = Some s'"
    and "num_buttons s = num_buttons s'"
  shows "buttons s = create_buttons (num_buttons s) \<and>
         map brect (buttons s) = map brect (buttons s') \<and>
         map bid (buttons s) = map bid (buttons s') \<and>
         buttons (reset_game g) = buttons (reset_game g') \<and>
         (num_buttons (add_buttons g c) = num_buttons (add_buttons g' c') \<longrightarrow>
            buttons (add_buttons g c) = buttons (add_buttons g' c'))"
proof -
  have a: "laid_out s"
    using laid_out_reset assms(1) unfolding run_gameplay_def by (rule rounds_laid_out)
  have b: "laid_out s'"
    using laid_out_reset assms(2) unfolding run_gameplay_def by (rule rounds_laid_out)
  have "buttons s = buttons s'" using a b assms(3) by (simp add: laid_out_def)
  moreover have "buttons (reset_game g) = buttons (reset_game g')"
    by (simp add: reset_game_def)
  ultimately show ?thesis using a by (simp add: laid_out_def add_buttons_simps)
qed

lemma restart_run:
  "run_gameplay after_five_rounds [] [] = AtRoundStart (reset_game after_five_rounds)"
  by (simp add: run_gameplay_def)

theorem layout_depends_on_count_only_witness:
  "final_game (run_gameplay init_game [(2, [])] [[MOUSEBUTTONDOWN (240, 320)]])
     = Some after_first_round \<and>
   final_game (run_gameplay after_five_rounds [] []) = Some (reset_game after_five_rounds) \<and>
   num_buttons after_first_round = num_buttons (reset_game after_five_rounds) \<and>
   num_buttons (add_buttons init_game 2) = num_buttons (add_buttons after_five_rounds 0) \<and>
   buttons after_first_round = create_buttons (num_buttons after_first_round) \<and>
   map brect (buttons after_first_round) = map brect (buttons (reset_game after_five_rounds)) \<and>
   map bid (buttons after_first_round) = map bid (buttons (reset_game after_five_rounds)) \<and>
   buttons (add_buttons init_game 2) = buttons (add_buttons after_five_rounds 0)"
proof -
  have a: "final_game (run_gameplay init_game [(2, [])] [[MOUSEBUTTONDOWN (240, 320)]])
     = Some after_first_round" by (simp add: first_round_run)
  have b: "final_game (run_gameplay after_five_rounds [] []) = Some (reset_game after_five_rounds)"
    by (simp add: restart_run)
  have c: "num_buttons after_first_round = num_buttons (reset_game after_five_rounds)"
    by (simp add: after_first_round_def init_game_def reset_game_def)
  have d: "num_buttons (add_buttons init_game 2) = num_buttons (add_buttons after_five_rounds 0)"
    by (simp add: add_buttons_simps add_buttons_loop_two init_game_def after_five_rounds_def
        MAX_BUTTONS_def)
  note t = layout_depends_on_count_only [OF a b c, of 2 0]
  note t1 = t [THEN conjunct1]
  note t2 = t [THEN conjunct2, THEN conjunct1]
  note t3 = t [THEN conjunct2, THEN conjunct2, THEN conjunct1]
  note t5 = t [THEN conjunct2, THEN conjunct2, THEN conjunct2, THEN conjunct2, THEN mp, OF d]
  show ?thesis by (intro conjI) (rule a b c d t1 t2 t3 t5)+
qed

section \<open>A fresh session\<close>

text \<open>
  Claim C7. \<open>run_gameplay\<close> begins with \<open>reset_game\<close>: the session starts with score 0,
  four buttons in the layout for four, and an empty sequence and user sequence. What
  these fields held before has no influence on anything the session does.
\<close>

theorem session_starts_fresh:
  "score (reset_game g) = 0 \<and> num_buttons (reset_game g) = 4 \<and>
   sequence (reset_game g) = [] \<and> user_sequence (reset_game g) = [] \<and>
   buttons (reset_game g) = create_buttons 4 \<and>
   run_gameplay g ins polls = rounds (reset_game g) ins polls \<and>
   run_gameplay (g\<lparr>sequence := sq, user_sequence := us, score := sc, num_buttons := nb,
                   buttons := bs\<rparr>) ins polls
     = run_gameplay g ins polls \<and>
   run_gameplay (choose_normal (g\<lparr>sequence := sq, user_sequence := us, score := sc,
                   num_buttons := nb, buttons := bs\<rparr>)) ins polls
     = run_gameplay (choose_normal g) ins polls \<and>
   run_gameplay (choose_fast (g\<lparr>sequence := sq, user_sequence := us, score := sc,
                   num_buttons := nb, buttons := bs\<rparr>)) ins polls
     = run_gameplay (choose_fast g) ins polls"
  by (simp add: run_gameplay_def reset_game_def choose_normal_def choose_fast_def)

theorem session_starts_fresh_witness:
  "score (reset_game after_five_rounds) = 0 \<and> num_buttons (reset_game after_five_rounds) = 4 \<and>
   sequence (reset_game after_five_rounds) = [] \<and>
   user_sequence (reset_game after_five_rounds) = [] \<and>
   buttons (reset_game after_five_rounds) = create_buttons 4 \<and>
   run_gameplay (choose_fast after_five_rounds) [(2, [])] [[MOUSEBUTTONDOWN (240, 320)]]
     = run_gameplay (choose_fast init_game) [(2, [])] [[MOUSEBUTTONDOWN (240, 320)]]"
proof -
  note r = session_starts_fresh [where g = after_five_rounds and ins = "[]" and polls = "[]"
      and sq = "[]" and us = "[]" and sc = 0 and nb = 4 and bs = "[]"]
  note t = session_starts_fresh [where g = init_game and ins = "[(2, [])]"
      and polls = "[[MOUSEBUTTONDOWN (240, 320)]]" and sq = "[0, 0, 0, 0, 0]"
      and us = "[0, 0, 0, 0, 0]" and sc = 5 and nb = 6 and bs = "create_buttons 6"]
  have e: "run_gameplay (choose_fast after_five_rounds) [(2, [])] [[MOUSEBUTTONDOWN (240, 320)]]
     = run_gameplay (choose_fast init_game) [(2, [])] [[MOUSEBUTTONDOWN (240, 320)]]"
    unfolding after_five_rounds_def
    by (rule t [THEN conjunct2, THEN conjunct2, THEN conjunct2, THEN conjunct2, THEN conjunct2,
          THEN conjunct2, THEN conjunct2, THEN conjunct2])
  show ?thesis
    by (intro conjI)
       (rule e r [THEN conjunct1] r [THEN conjunct2, THEN conjunct1]
          r [THEN conjunct2, THEN conjunct2, THEN conjunct1]
          r [THEN conjunct2, THEN conjunct2, THEN conjunct2, THEN conjunct1]
          r [THEN conjunct2, THEN conjunct2, THEN conjunct2, THEN conjunct2, THEN conjunct1])+
qed

section \<open>Appending a random element\<close>

lemma sequence_update_eq:
  "(g\<lparr>sequence := xs\<rparr> = g\<lparr>sequence := ys\<rparr>) = (xs = ys)"
proof
  assume "g\<lparr>sequence := xs\<rparr> = g\<lparr>sequence := ys\<rparr>"
  then have "sequence (g\<lparr>sequence := xs\<rparr>) = sequence (g\<lparr>sequence := ys\<rparr>)" by simp
  then show "xs = ys" by simp
next
  assume "xs = ys"
  then show "g\<lparr>sequence := xs\<rparr> = g\<lparr>sequence := ys\<rparr>" by simp
qed

lemma residue_class_card:
  assumes "v < n"
  shows "card {e. e < k * n \<and> e mod n = v} = k"
proof (induction k)
  case 0
  show ?case by simp
next
  case (Suc k)
  have s: "{e. e < Suc k * n \<and> e mod n = v} = insert (k * n + v) {e. e < k * n \<and> e mod n = v}"
  proof (rule set_eqI)
    fix e
    show "e \<in> {e. e < Suc k * n \<and> e mod n = v} \<longleftrightarrow>
          e \<in> insert (k * n + v) {e. e < k * n \<and> e mod n = v}"
    proof (cases "e < k * n")
      case True
      then have "e \<noteq> k * n + v" by simp
      moreover have "e < Suc k * n" using True by simp
      ultimately show ?thesis using True by simp
    next
      case False
      then obtain d where d: "e = k * n + d" using le_Suc_ex [of "k * n" e] by auto
      have m: "e mod n = d mod n" using d by simp
      show ?thesis
      proof (cases "d < n")
        case True
        then have "e mod n = d" using m by simp
        then show ?thesis using d True False by auto
      next
        case False
        then have "\<not> e < Suc k * n" using d by simp
        moreover have "e \<noteq> k * n + v" using d False assms by simp
        ultimately show ?thesis using \<open>\<not> e < k * n\<close> by simp
      qed
    qed
  qed
  have f: "finite {e. e < k * n \<and> e mod n = v}" by simp
  have "k * n + v \<notin> {e. e < k * n \<and> e mod n = v}" by simp
  with f have "card (insert (k * n + v) {e. e < k * n \<and> e mod n = v})
      = Suc (card {e. e < k * n \<and> e mod n = v})"
    by (rule card_insert_disjoint)
  then show ?case unfolding s Suc.IH .
qed

lemma add_to_sequence_value:
  assumes "1 \<le> num_buttons g"
  shows "add_to_sequence g e = Inr (g\<lparr>sequence := sequence g @ [int (e mod num_buttons g)]\<rparr>)"
  using assms by (simp add: add_to_sequence_def randint_def zmod_int)

text \<open>
  Claim C8. With \<open>n = num_buttons \<ge> 1\<close>, \<open>add_to_sequence\<close> appends exactly one value
  to the sequence and that value is at least 0 and at most \<open>n - 1\<close>. The draw is uniform
  in the sense the model of \<open>random.randint\<close> gives it: among the generator outputs
  \<open>0, \<dots>, k * n - 1\<close> exactly \<open>k\<close> lead to each value of the range.
\<close>

theorem add_to_sequence_uniform_in_range:
  assumes "1 \<le> num_buttons g"
  shows "(\<exists>v. add_to_sequence g e = Inr (g\<lparr>sequence := sequence g @ [v]\<rparr>) \<and>
              0 \<le> v \<and> v \<le> int (num_buttons g) - 1) \<and>
         (0 \<le> w \<and> w \<le> int (num_buttons g) - 1 \<longrightarrow>
            card {e. e < k * num_buttons g \<and>
                     add_to_sequence g e = Inr (g\<lparr>sequence := sequence g @ [w]\<rparr>)} = k)"
proof (intro conjI impI)
  have "0 \<le> int (e mod num_buttons g) \<and> int (e mod num_buttons g) \<le> int (num_buttons g) - 1"
    using assms by (simp add: Suc_leI int_ops flip: of_nat_diff) 
  then show "\<exists>v. add_to_sequence g e = Inr (g\<lparr>sequence := sequence g @ [v]\<rparr>) \<and>
              0 \<le> v \<and> v \<le> int (num_buttons g) - 1"
    using add_to_sequence_value [OF assms, of e] by blast
next
  assume w: "0 \<le> w \<and> w \<le> int (num_buttons g) - 1"
  then have lt: "nat w < num_buttons g" by linarith
  have "{e. e < k * num_buttons g \<and>
            add_to_sequence g e = Inr (g\<lparr>sequence := sequence g @ [w]\<rparr>)}
        = {e. e < k * num_buttons g \<and> e mod num_buttons g = nat w}"
    using w by (auto simp: add_to_sequence_value [OF assms] sequence_update_eq)
  then show "card {e. e < k * num_buttons g \<and>
                     add_to_sequence g e = Inr (g\<lparr>sequence := sequence g @ [w]\<rparr>)} = k"
    using residue_class_card [OF lt, of k] by simp
qed

theorem add_to_sequence_uniform_in_range_witness:
  "1 \<le> num_buttons after_first_round \<and>
   0 \<le> (3::int) \<and> (3::int) \<le> int (num_buttons after_first_round) - 1 \<and>
   (\<exists>v. add_to_sequence after_first_round 7
           = Inr (after_first_round\<lparr>sequence := sequence after_first_round @ [v]\<rparr>) \<and>
         0 \<le> v \<and> v \<le> int (num_buttons after_first_round) - 1) \<and>
   card {e. e < 2 * num_buttons after_first_round \<and>
            add_to_sequence after_first_round e
              = Inr (after_first_round\<lparr>sequence := sequence after_first_round @ [3]\<rparr>)} = 2"
proof -
  have n: "num_buttons after_first_round = 4" by (simp add: after_first_round_def init_game_def)
  have a: "1 \<le> num_buttons after_first_round" using n by simp
  have b: "0 \<le> (3::int) \<and> (3::int) \<le> int (num_buttons after_first_round) - 1"
    using n by simp
  note t = add_to_sequence_uniform_in_range [OF a, of 7 3 2]
  from t b have c: "card {e. e < 2 * num_buttons after_first_round \<and>
            add_to_sequence after_first_round e
              = Inr (after_first_round\<lparr>sequence := sequence after_first_round @ [3]\<rparr>)} = 2"
    by blast
  from t have d: "\<exists>v. add_to_sequence after_first_round 7
           = Inr (after_first_round\<lparr>sequence := sequence after_first_round @ [v]\<rparr>) \<and>
         0 \<le> v \<and> v \<le> int (num_buttons after_first_round) - 1"
    by (rule conjunct1)
  from a b c d show ?thesis by (intro conjI) simp_all
qed

section \<open>The delay of the playback\<close>

lemma hold_delays_animate_loop:
  "animate_loop g ids = Inr fx \<Longrightarrow> hold_delays fx = replicate (length ids) (hold_delay g)"
proof (induction ids arbitrary: fx)
  case Nil
  then show ?case by simp
next
  case (Cons i ids)
  from Cons.prems obtain b fx' where
    "py_index (buttons g) i = Inr b" and r: "animate_loop g ids = Inr fx'" and
    fx: "fx = [StartHighlight (bid b), Frames HIGHLIGHT_ANIMATION_STEPS, Delay (hold_delay g),
               StartUnhighlight (bid b), Frames HIGHLIGHT_ANIMATION_STEPS, Delay 100] @ fx'"
    by (auto split: sum.splits)
  have "hold_delays fx = hold_delay g # hold_delays fx'" by (simp add: fx)
  with Cons.IH [OF r] show ?case by simp
qed

lemma difficulty_events_choice:
  assumes "difficulty_events g evs = Some g'" and "state g \<noteq> ''GAME''" and "state g' = ''GAME''"
  shows "g' = choose_normal g \<or> g' = choose_fast g"
  using assms
proof (induction g evs rule: difficulty_events.induct)
  case (1 g)
  then show ?case by simp
next
  case (2 g evs)
  then show ?case by simp
next
  case (3 g evs)
  then show ?case by simp
next
  case (4 g pos evs)
  then show ?case by (auto split: if_splits)
qed

lemma same_settings_reset: "same_settings g (reset_game g)"
  by (simp add: same_settings_def reset_game_def)

lemma same_settings_Won:
  assumes "same_settings g0 g" and "play_round g e q ps = Won g' ps'"
  shows "same_settings g0 g'"
proof -
  from play_round_Won [OF assms(2)] obtain v us where
    g': "g' = (if Suc (score g) mod 5 = 0 \<and> num_buttons g < max_buttons g
                 then add_buttons (g\<lparr>sequence := sequence g @ [v], user_sequence := us,
                                     score := Suc (score g)\<rparr>) 2
                 else g\<lparr>sequence := sequence g @ [v], user_sequence := us,
                        score := Suc (score g)\<rparr>)" by blast
  show ?thesis
  proof (cases "Suc (score g) mod 5 = 0 \<and> num_buttons g < max_buttons g")
    case True
    then have "g' = add_buttons (g\<lparr>sequence := sequence g @ [v], user_sequence := us,
                                     score := Suc (score g)\<rparr>) 2"
      using g' by simp
    then show ?thesis using assms(1) by (simp add: same_settings_def add_buttons_simps)
  next
    case False
    have "g' = g\<lparr>sequence := sequence g @ [v], user_sequence := us,
                        score := Suc (score g)\<rparr>"
      using g' by (simp only: False if_False)
    then show ?thesis using assms(1) by (simp add: same_settings_def)
  qed
qed

lemma same_settings_unfinished:
  assumes "same_settings g0 g"
    and "play_round g e q ps = Lost g' \<or> play_round g e q ps = Waiting g'"
  shows "same_settings g0 g'"
proof -
  from assms(2) play_round_Lost play_round_Waiting obtain v us where
    "g' = g\<lparr>sequence := sequence g @ [v], user_sequence := us\<rparr>" by blast
  then show ?thesis using assms(1) by (simp add: same_settings_def)
qed

lemma rounds_same_settings:
  assumes "same_settings g0 g" and "final_game (rounds g ins polls) = Some s"
  shows "same_settings g0 s"
proof -
  have step: "\<forall>h e q ps h' ps'.
      same_settings g0 h \<longrightarrow> play_round h e q ps = Won h' ps' \<longrightarrow> same_settings g0 h'"
    using same_settings_Won by blast
  from rounds_final [where I = "same_settings g0" and ins = ins and polls = polls,
      OF assms(1) step]
  show ?thesis
  proof (elim disjE exE conjE)
    fix t assume "rounds g ins polls = AtRoundStart t" "same_settings g0 t"
    with assms(2) show ?thesis by simp
  next
    fix t e q p t'
    assume "same_settings g0 t" "play_round t e q p = Lost t'"
      "rounds g ins polls = Returned (t'\<lparr>state := ''GAME_OVER''\<rparr>)"
    with assms(2) same_settings_unfinished [of g0 t e q p t'] show ?thesis
      by (auto simp: same_settings_def)
  next
    fix t e q p t'
    assume "same_settings g0 t" "play_round t e q p = Waiting t'"
      "rounds g ins polls = InRecall t'"
    with assms(2) same_settings_unfinished [of g0 t e q p t'] show ?thesis by auto
  next
    fix t e q p
    assume "rounds g ins polls = Exited"
    with assms(2) show ?thesis by simp
  next
    fix t e q p err
    assume "rounds g ins polls = Raised err"
    with assms(2) show ?thesis by simp
  qed
qed

text \<open>
  Claim C1, as the code has it. After a difficulty is chosen on the difficulty screen,
  every playback of the session holds each highlight for \<open>display_speed = 500\<close> ms when
  the choice is Normal, and for \<open>fast_display_speed = 50\<close> ms when the choice is Fast
  (the \<open>display_speed = 100\<close> that Fast also sets is not read by the playback).
\<close>

theorem playback_hold_delay_by_difficulty:
  assumes "difficulty_events g evs = Some g'"
    and "state g \<noteq> ''GAME''" and "state g' = ''GAME''"
    and "final_game (run_gameplay g' ins polls) = Some s"
  shows "(difficulty g' = ''Normal'' \<or> difficulty g' = ''Fast'') \<and>
         playback_hold_delays s =
           Inr (replicate (length (sequence s)) (if difficulty g' = ''Fast'' then 50 else 500))"
proof -
  have c: "g' = choose_normal g \<or> g' = choose_fast g"
    using assms(1-3) by (rule difficulty_events_choice)
  then have d: "difficulty g' = ''Normal'' \<or> difficulty g' = ''Fast''"
    by (auto simp: choose_normal_def choose_fast_def)
  from c have h: "hold_delay g' = (if difficulty g' = ''Fast'' then 50 else 500)"
    by (auto simp: choose_normal_def choose_fast_def hold_delay_def)
  have "same_settings g' s"
    using same_settings_reset assms(4) unfolding run_gameplay_def by (rule rounds_same_settings)
  then have e: "hold_delay s = hold_delay g'" by (simp add: same_settings_def hold_delay_def)
  have "in_bounds s"
    using in_bounds_reset assms(4) unfolding run_gameplay_def by (rule rounds_in_bounds)
  then obtain fx where fx: "animate_sequence s = Inr fx" using in_bounds_animate by blast
  then have "hold_delays fx = replicate (length (sequence s)) (hold_delay s)"
    unfolding animate_sequence_def by (rule hold_delays_animate_loop)
  then have "playback_hold_delays s =
      Inr (replicate (length (sequence s)) (if difficulty g' = ''Fast'' then 50 else 500))"
    using fx e h by (simp add: playback_hold_delays_def)
  with d show ?thesis by simp
qed

lemma choose_fast_click:
  "difficulty_events difficulty_screen [MOUSEBUTTONDOWN (400, 375)]
     = Some (choose_fast difficulty_screen)"
  by code_simp

lemma choose_normal_click:
  "difficulty_events difficulty_screen [MOUSEBUTTONDOWN (400, 275)]
     = Some (choose_normal difficulty_screen)"
  by code_simp

lemma fast_first_round_run:
  "run_gameplay (choose_fast difficulty_screen) [(0, [])] [] = InRecall fast_first_round"
  by code_simp

lemma normal_first_round_run:
  "run_gameplay (choose_normal difficulty_screen) [(0, [])] [] = InRecall normal_first_round"
  by code_simp

theorem playback_hold_delay_by_difficulty_witness:
  "difficulty_events difficulty_screen [MOUSEBUTTONDOWN (400, 375)]
     = Some (choose_fast difficulty_screen) \<and>
   difficulty_events difficulty_screen [MOUSEBUTTONDOWN (400, 275)]
     = Some (choose_normal difficulty_screen) \<and>
   state difficulty_screen \<noteq> ''GAME'' \<and>
   state (choose_fast difficulty_screen) = ''GAME'' \<and>
   state (choose_normal difficulty_screen) = ''GAME'' \<and>
   final_game (run_gameplay (choose_fast difficulty_screen) [(0, [])] []) = Some fast_first_round \<and>
   final_game (run_gameplay (choose_normal difficulty_screen) [(0, [])] [])
     = Some normal_first_round \<and>
   playback_hold_delays fast_first_round = Inr [50] \<and>
   playback_hold_delays normal_first_round = Inr [500]"
proof -
  have a: "state difficulty_screen \<noteq> ''GAME''" by (simp add: difficulty_screen_def)
  have b: "state (choose_fast difficulty_screen) = ''GAME''" by (simp add: choose_fast_def)
  have c: "state (choose_normal difficulty_screen) = ''GAME''" by (simp add: choose_normal_def)
  have f: "final_game (run_gameplay (choose_fast difficulty_screen) [(0, [])] [])
      = Some fast_first_round" by (simp add: fast_first_round_run)
  have n: "final_game (run_gameplay (choose_normal difficulty_screen) [(0, [])] [])
      = Some normal_first_round" by (simp add: normal_first_round_run)
  have x: "playback_hold_delays fast_first_round = Inr [50]"
    using playback_hold_delay_by_difficulty [OF choose_fast_click a b f]
    by (simp add: fast_first_round_def choose_fast_def)
  have y: "playback_hold_delays normal_first_round = Inr [500]"
    using playback_hold_delay_by_difficulty [OF choose_normal_click a c n]
    by (simp add: normal_first_round_def choose_normal_def)
  show ?thesis by (intro conjI) (rule choose_fast_click choose_normal_click a b c f n x y)+
qed

text \<open>
  The claim as the specification states it fails for Fast: the highlight of the first round
  is held for 50 ms, not for 100 ms.
\<close>

theorem fast_hold_delay_counterexample:
  "difficulty_events difficulty_screen [MOUSEBUTTONDOWN (400, 375)]
     = Some (choose_fast difficulty_screen) \<and>
   run_gameplay (choose_fast difficulty_screen) [(0, [])] [] = InRecall fast_first_round \<and>
   animate_sequence fast_first_round
     = Inr [StartHighlight 0, Frames 20, Delay 50, StartUnhighlight 0, Frames 20, Delay 100] \<and>
   playback_hold_delays fast_first_round \<noteq> Inr [100]"
proof -
  have "animate_sequence fast_first_round
     = Inr [StartHighlight 0, Frames 20, Delay 50, StartUnhighlight 0, Frames 20, Delay 100]"
    by code_simp
  moreover from this have "playback_hold_delays fast_first_round \<noteq> Inr [100]"
    by (simp add: playback_hold_delays_def)
  ultimately show ?thesis using choose_fast_click fast_first_round_run by simp
qed

section \<open>Clicks made during the playback\<close>

lemma recall_indices: "[0..<length (xs @ [v])] = 0 # [1..<length (xs @ [v])]"
  by (simp add: upt_conv_Cons del: upt_Suc)

lemma recall_first_click:
  assumes "find (\<lambda>b. is_clicked b pos) (buttons g) = Some b"
  shows "recall (0 # idxs) (g\<lparr>user_sequence := []\<rparr>) [[MOUSEBUTTONDOWN pos]] =
           (if bid b \<noteq> sequence g ! 0 then RDone (g\<lparr>user_sequence := [bid b]\<rparr>) False []
            else recall idxs (g\<lparr>user_sequence := [bid b]\<rparr>) [])"
  using assms by simp

lemma recall_empty_poll: "recall (idx # idxs) g [[]] = RWaiting g"
  by simp

lemma recall_no_polls:
  "recall idxs g [] = (if idxs = [] then RDone g True [] else RWaiting g)"
  by (cases idxs) simp_all

text \<open>One click queued during the playback and no later input: the exact result.\<close>

lemma single_playback_click:
  assumes "in_bounds g"
    and "find (\<lambda>b. is_clicked b pos) (buttons g) = Some b"
    and "v = int (e mod num_buttons g)"
  shows "play_round g e [] [] = Waiting (g\<lparr>sequence := sequence g @ [v], user_sequence := []\<rparr>) \<and>
         play_round g e [MOUSEBUTTONDOWN pos] [] =
           (if bid b \<noteq> hd (sequence g @ [v])
            then Lost (g\<lparr>sequence := sequence g @ [v], user_sequence := [bid b]\<rparr>)
            else if sequence g \<noteq> []
            then Waiting (g\<lparr>sequence := sequence g @ [v], user_sequence := [bid b]\<rparr>)
            else if (score g + 1) mod 5 = 0 \<and> num_buttons g < max_buttons g
            then Won (add_buttons (g\<lparr>sequence := sequence g @ [v], user_sequence := [bid b],
                                     score := score g + 1\<rparr>) 2) []
            else Won (g\<lparr>sequence := sequence g @ [v], user_sequence := [bid b],
                        score := score g + 1\<rparr>) [])"
proof -
  let ?g1 = "g\<lparr>sequence := sequence g @ [v]\<rparr>"
  have n: "1 \<le> num_buttons g" using assms(1) by (simp add: in_bounds_def)
  have a: "add_to_sequence g e = Inr ?g1"
    using add_to_sequence_value [OF n, of e] assms(3) by simp
  have "0 \<le> v \<and> v < int (num_buttons g)" using n assms(3) by simp
  then have "in_bounds ?g1" using assms(1) by (simp add: in_bounds_def)
  then obtain fx where fx: "animate_sequence ?g1 = Inr fx" using in_bounds_animate by blast
  have f: "find (\<lambda>b. is_clicked b pos) (buttons ?g1) = Some b" using assms(2) by simp
  have h: "sequence ?g1 ! 0 = hd (sequence g @ [v])" by (simp add: hd_conv_nth)
  have i: "[0..<length (sequence ?g1)] = 0 # [1..<length (sequence ?g1)]"
    using recall_indices [of "sequence g" v] by simp
  have e: "([1..<length (sequence ?g1)] = []) = (sequence g = [])"
    by (cases "sequence g") simp_all
  have i2: "[0..<length (sequence (?g1\<lparr>user_sequence := []\<rparr>))]
      = 0 # [1..<length (sequence ?g1)]"
    using i by simp
  have r0: "recall [0..<length (sequence (?g1\<lparr>user_sequence := []\<rparr>))]
      (?g1\<lparr>user_sequence := []\<rparr>) [[]] = RWaiting (?g1\<lparr>user_sequence := []\<rparr>)"
    by (subst i2) (rule recall_empty_poll)
  have w: "play_round g e [] [] = Waiting (?g1\<lparr>user_sequence := []\<rparr>)"
    unfolding play_round_def Let_def
    by (simp only: a fx sum.case event_get_after_def list.case r0 recall_result.case)
  have r1: "recall [0..<length (sequence (?g1\<lparr>user_sequence := []\<rparr>))]
      (?g1\<lparr>user_sequence := []\<rparr>) [[MOUSEBUTTONDOWN pos]] =
        (if bid b \<noteq> sequence ?g1 ! 0 then RDone (?g1\<lparr>user_sequence := [bid b]\<rparr>) False []
         else recall [1..<length (sequence ?g1)] (?g1\<lparr>user_sequence := [bid b]\<rparr>) [])"
    by (subst i2) (rule recall_first_click [OF f])
  have c: "play_round g e [MOUSEBUTTONDOWN pos] [] =
      (case (if bid b \<noteq> sequence ?g1 ! 0 then RDone (?g1\<lparr>user_sequence := [bid b]\<rparr>) False []
             else recall [1..<length (sequence ?g1)] (?g1\<lparr>user_sequence := [bid b]\<rparr>) []) of
         RExit \<Rightarrow> Quit
       | RWaiting g3 \<Rightarrow> Waiting g3
       | RDone g3 running polls' \<Rightarrow>
           if \<not> running then Lost g3
           else
             (let g4 = g3\<lparr>score := score g3 + 1\<rparr> in
              if score g4 mod 5 = 0 \<and> num_buttons g4 < max_buttons g4
              then Won (add_buttons g4 2) polls'
              else Won g4 polls'))"
    unfolding play_round_def Let_def
    by (simp only: a fx sum.case event_get_after_def list.case r1)
  show ?thesis
  proof (intro conjI)
    show "play_round g e [] [] = Waiting (g\<lparr>sequence := sequence g @ [v], user_sequence := []\<rparr>)"
      using w by simp
  next
    show "play_round g e [MOUSEBUTTONDOWN pos] [] =
           (if bid b \<noteq> hd (sequence g @ [v])
            then Lost (g\<lparr>sequence := sequence g @ [v], user_sequence := [bid b]\<rparr>)
            else if sequence g \<noteq> []
            then Waiting (g\<lparr>sequence := sequence g @ [v], user_sequence := [bid b]\<rparr>)
            else if (score g + 1) mod 5 = 0 \<and> num_buttons g < max_buttons g
            then Won (add_buttons (g\<lparr>sequence := sequence g @ [v], user_sequence := [bid b],
                                     score := score g + 1\<rparr>) 2) []
            else Won (g\<lparr>sequence := sequence g @ [v], user_sequence := [bid b],
                        score := score g + 1\<rparr>) [])"
      unfolding c h recall_no_polls e by (simp add: Let_def)
  qed
qed

lemma init_game_in_bounds: "in_bounds init_game"
  by code_simp

lemma click_on_button_one:
  "find (\<lambda>b. is_clicked b (420, 140)) (buttons init_game)
     = Some \<lparr>brect = \<lparr>rx = 415, ry = 135, rw = 150, rh = 150\<rparr>, bid = 1\<rparr>"
  by code_simp

lemma handle_event_passes_by:
  "passes_by (buttons g) ev \<Longrightarrow> handle_event idx (g, ui, r) ev = Some (g, ui, r)"
  by (cases ev) simp_all

lemma process_events_passes_by:
  "list_all (passes_by (buttons g)) evs \<Longrightarrow> process_events idx (g, ui, r) evs = Some (g, ui, r)"
  by (induction evs) (simp_all add: handle_event_passes_by)

lemma process_events_append:
  "process_events idx s (xs @ ys) =
     (case process_events idx s xs of None \<Rightarrow> None | Some s' \<Rightarrow> process_events idx s' ys)"
  by (induction xs arbitrary: s) (simp_all split: option.splits)

lemma handle_event_trace:
  assumes "handle_event idx (g, ui, r) ev = Some (g', ui', r')"
  shows "(\<exists>us. user_sequence g' = user_sequence g @ us) \<and> (ui \<noteq> None \<longrightarrow> ui' \<noteq> None) \<and>
         (\<not> r \<longrightarrow> \<not> r')"
proof (cases ev)
  case QUIT
  with assms show ?thesis by simp
next
  case OTHER
  with assms show ?thesis by simp
next
  case (MOUSEBUTTONDOWN pos)
  show ?thesis
  proof (cases "find (\<lambda>b. is_clicked b pos) (buttons g)")
    case None
    with assms MOUSEBUTTONDOWN show ?thesis by simp
  next
    case (Some b)
    with assms MOUSEBUTTONDOWN have
      "g' = g\<lparr>user_sequence := user_sequence g @ [bid b]\<rparr>" "ui' = Some (bid b)"
      "r' = (if bid b \<noteq> sequence g ! idx then False else r)"
      by simp_all
    then show ?thesis by simp
  qed
qed

lemma process_events_trace:
  assumes "process_events idx (g, ui, r) evs = Some (g', ui', r')"
  shows "(\<exists>us. user_sequence g' = user_sequence g @ us) \<and> (ui \<noteq> None \<longrightarrow> ui' \<noteq> None) \<and>
         (\<not> r \<longrightarrow> \<not> r')"
  using assms
proof (induction evs arbitrary: g ui r)
  case Nil
  then show ?case by simp
next
  case (Cons ev evs)
  from Cons.prems obtain g1 ui1 r1 where
    h: "handle_event idx (g, ui, r) ev = Some (g1, ui1, r1)"
    and p: "process_events idx (g1, ui1, r1) evs = Some (g', ui', r')"
    by (auto split: option.splits)
  note t1 = handle_event_trace [OF h] and t2 = Cons.IH [OF p]
  from t1 obtain us1 where a: "user_sequence g1 = user_sequence g @ us1" by (elim conjE exE)
  from t2 obtain us2 where b: "user_sequence g' = user_sequence g1 @ us2" by (elim conjE exE)
  have "user_sequence g' = user_sequence g @ (us1 @ us2)" using a b by simp
  then have x: "\<exists>us. user_sequence g' = user_sequence g @ us" ..
  have y: "ui \<noteq> None \<longrightarrow> ui' \<noteq> None"
    using t1 [THEN conjunct2, THEN conjunct1] t2 [THEN conjunct2, THEN conjunct1] by simp
  have z: "\<not> r \<longrightarrow> \<not> r'"
    using t1 [THEN conjunct2, THEN conjunct2] t2 [THEN conjunct2, THEN conjunct2] by simp
  from x y z show ?case by (intro conjI)
qed

lemma await_input_trace:
  "await_input idx g r polls = AGot g' r' polls' \<Longrightarrow> \<exists>us. user_sequence g' = user_sequence g @ us"
  "await_input idx g r polls = AWaiting g' \<Longrightarrow> \<exists>us. user_sequence g' = user_sequence g @ us"
proof (induction polls arbitrary: g r)
  case Nil
  { case 1 then show ?case by simp }
  { case 2 then show ?case by auto }
next
  case (Cons batch polls)
  { case 1
    show ?case
    proof (cases "process_events idx (g, None, r) batch")
      case None
      with 1 show ?thesis by simp
    next
      case (Some s)
      obtain g1 ui1 r1 where s: "s = (g1, ui1, r1)" by (cases s) auto
      have "process_events idx (g, None, r) batch = Some (g1, ui1, r1)" using Some s by simp
      from process_events_trace [OF this]
      obtain us1 where a: "user_sequence g1 = user_sequence g @ us1" by (elim conjE exE)
      show ?thesis
      proof (cases ui1)
        case None
        with 1 Some s have "await_input idx g1 r1 polls = AGot g' r' polls'" by simp
        then obtain us2 where "user_sequence g' = user_sequence g1 @ us2"
          using Cons.IH(1) by blast
        then have "user_sequence g' = user_sequence g @ (us1 @ us2)" using a by simp
        then show ?thesis by blast
      next
        case (Some v)
        with 1 \<open>process_events idx (g, None, r) batch = Some s\<close> s have "g' = g1" by simp
        with a show ?thesis by blast
      qed
    qed }
  { case 2
    show ?case
    proof (cases "process_events idx (g, None, r) batch")
      case None
      with 2 show ?thesis by simp
    next
      case (Some s)
      obtain g1 ui1 r1 where s: "s = (g1, ui1, r1)" by (cases s) auto
      have "process_events idx (g, None, r) batch = Some (g1, ui1, r1)" using Some s by simp
      from process_events_trace [OF this]
      obtain us1 where a: "user_sequence g1 = user_sequence g @ us1" by (elim conjE exE)
      show ?thesis
      proof (cases ui1)
        case None
        with 2 Some s have "await_input idx g1 r1 polls = AWaiting g'" by simp
        then obtain us2 where "user_sequence g' = user_sequence g1 @ us2"
          using Cons.IH(2) by blast
        then have "user_sequence g' = user_sequence g @ (us1 @ us2)" using a by simp
        then show ?thesis by blast
      next
        case (Some v)
        with 2 \<open>process_events idx (g, None, r) batch = Some s\<close> s show ?thesis by simp
      qed
    qed }
qed

lemma recall_trace:
  "recall idxs g polls = RDone g' r' polls' \<Longrightarrow> \<exists>us. user_sequence g' = user_sequence g @ us"
  "recall idxs g polls = RWaiting g' \<Longrightarrow> \<exists>us. user_sequence g' = user_sequence g @ us"
proof (induction idxs arbitrary: g polls)
  case Nil
  { case 1 then show ?case by auto }
  { case 2 then show ?case by simp }
next
  case (Cons idx idxs)
  { case 1
    then obtain g1 r1 p1 where a: "await_input idx g True polls = AGot g1 r1 p1"
      and c: "(\<not> r1 \<and> g' = g1) \<or> (r1 \<and> recall idxs g1 p1 = RDone g' r' polls')"
      by (auto split: await_result.splits if_splits)
    from await_input_trace(1) [OF a] obtain us1 where
      e: "user_sequence g1 = user_sequence g @ us1" by blast
    from c show ?case
    proof
      assume "\<not> r1 \<and> g' = g1" with e show ?thesis by blast
    next
      assume "r1 \<and> recall idxs g1 p1 = RDone g' r' polls'"
      then obtain us2 where "user_sequence g' = user_sequence g1 @ us2"
        using Cons.IH(1) by blast
      then have "user_sequence g' = user_sequence g @ (us1 @ us2)" using e by simp
      then show ?thesis by blast
    qed }
  { case 2
    then have c: "await_input idx g True polls = AWaiting g' \<or>
        (\<exists>g1 p1. await_input idx g True polls = AGot g1 True p1 \<and> recall idxs g1 p1 = RWaiting g')"
      by (auto split: await_result.splits if_splits)
    from c show ?case
    proof
      assume "await_input idx g True polls = AWaiting g'"
      then show ?thesis by (rule await_input_trace(2))
    next
      assume "\<exists>g1 p1. await_input idx g True polls = AGot g1 True p1 \<and> recall idxs g1 p1 = RWaiting g'"
      then obtain g1 p1 where a: "await_input idx g True polls = AGot g1 True p1"
        and r: "recall idxs g1 p1 = RWaiting g'" by blast
      from await_input_trace(1) [OF a] obtain us1 where
        e: "user_sequence g1 = user_sequence g @ us1" by blast
      from Cons.IH(2) [OF r] obtain us2 where "user_sequence g' = user_sequence g1 @ us2" by blast
      then have "user_sequence g' = user_sequence g @ (us1 @ us2)" using e by simp
      then show ?thesis by blast
    qed }
qed

lemma event_get_after_first:
  "\<exists>rest ps. event_get_after (pre @ ev # post) polls = (pre @ ev # rest) # ps"
  by (cases polls) (simp_all add: event_get_after_def)

lemma add_buttons_user_sequence: "user_sequence (add_buttons g c) = user_sequence g"
  by (simp add: add_buttons_def Let_def)

lemma event_get_after_queue:
  "event_get_after queued (p # ps) = (queued @ p) # ps"
  "event_get_after queued [] = [queued]"
  by (simp_all add: event_get_after_def)

lemma play_round_queue:
  "play_round g e queued (p # ps) = play_round g e [] ((queued @ p) # ps)"
  "play_round g e queued [] = play_round g e [] [queued]"
  unfolding play_round_def event_get_after_queue append_Nil by (rule refl)+

text \<open>
  Claim C9, as the code has it. \<open>animate_sequence\<close> makes no call that reads or clears
  the event queue, so a click made during the playback is not discarded: whatever else
  is queued with it and whatever is polled later, the first \<open>pygame.event.get()\<close> of
  the recall phase returns the queued events ahead of its own, and they are handled
  there. If the first queued click that lies on a button lies on button \<open>b\<close>, the round
  cannot go on as if nothing had been clicked: either a quit event ends the process, or
  \<open>b\<close> is the first element of \<open>user_sequence\<close> and has been compared with the first
  element of the sequence, a different button ending the session. Without queued events
  and without input the recall phase waits with an empty \<open>user_sequence\<close>.
\<close>

theorem playback_click_is_handled_in_recall:
  assumes "in_bounds g"
    and "list_all (passes_by (buttons g)) pre"
    and "find (\<lambda>b. is_clicked b pos) (buttons g) = Some b"
    and "v = int (e mod num_buttons g)"
  shows "(play_round g e (pre @ MOUSEBUTTONDOWN pos # post) polls = Quit \<or>
          (\<exists>s us. play_round g e (pre @ MOUSEBUTTONDOWN pos # post) polls = Lost s \<and>
                  user_sequence s = bid b # us) \<or>
          (bid b = hd (sequence g @ [v]) \<and>
           (\<exists>s us ps. (play_round g e (pre @ MOUSEBUTTONDOWN pos # post) polls = Waiting s \<or>
                       play_round g e (pre @ MOUSEBUTTONDOWN pos # post) polls = Won s ps) \<and>
                      user_sequence s = bid b # us))) \<and>
         play_round g e queued (p # polls) = play_round g e [] ((queued @ p) # polls) \<and>
         play_round g e queued [] = play_round g e [] [queued] \<and>
         play_round g e [] [] = Waiting (g\<lparr>sequence := sequence g @ [v], user_sequence := []\<rparr>)"
proof -
  let ?g1 = "g\<lparr>sequence := sequence g @ [v]\<rparr>"
  let ?g2 = "?g1\<lparr>user_sequence := []\<rparr>"
  let ?R = "play_round g e (pre @ MOUSEBUTTONDOWN pos # post) polls"
  define F where "F = (\<lambda>X. case X of
      RExit \<Rightarrow> Quit
    | RWaiting g3 \<Rightarrow> Waiting g3
    | RDone g3 running polls' \<Rightarrow>
        if \<not> running then Lost g3
        else
          (let g4 = g3\<lparr>score := score g3 + 1\<rparr> in
           if score g4 mod 5 = 0 \<and> num_buttons g4 < max_buttons g4
           then Won (add_buttons g4 2) polls'
           else Won g4 polls'))"
  have F_exit: "F RExit = Quit" and F_wait: "\<And>s. F (RWaiting s) = Waiting s"
    and F_lost: "\<And>s ps. F (RDone s False ps) = Lost s"
    by (simp_all add: F_def)
  have F_won: "\<And>s ps. \<exists>s'. F (RDone s True ps) = Won s' ps \<and> user_sequence s' = user_sequence s"
    by (simp add: F_def Let_def add_buttons_user_sequence)
  have n: "1 \<le> num_buttons g" using assms(1) by (simp add: in_bounds_def)
  have a: "add_to_sequence g e = Inr ?g1"
    using add_to_sequence_value [OF n, of e] assms(4) by simp
  have "0 \<le> v \<and> v < int (num_buttons g)" using n assms(4) by simp
  then have "in_bounds ?g1" using assms(1) by (simp add: in_bounds_def)
  then obtain fx where fx: "animate_sequence ?g1 = Inr fx" using in_bounds_animate by blast
  obtain rest ps where q:
    "event_get_after (pre @ MOUSEBUTTONDOWN pos # post) polls
       = (pre @ MOUSEBUTTONDOWN pos # rest) # ps"
    using event_get_after_first by blast
  have i: "[0..<length (sequence ?g2)] = 0 # [1..<length (sequence ?g1)]"
    using recall_indices [of "sequence g" v] by simp
  have R: "?R = F (recall (0 # [1..<length (sequence ?g1)]) ?g2
                     ((pre @ MOUSEBUTTONDOWN pos # rest) # ps))"
    unfolding play_round_def Let_def F_def
    by (simp only: a fx sum.case q i)
  have h0: "sequence ?g2 ! 0 = hd (sequence g @ [v])" by (simp add: hd_conv_nth)
  have pre2: "list_all (passes_by (buttons ?g2)) pre" using assms(2) by simp
  have hit2: "find (\<lambda>b. is_clicked b pos) (buttons ?g2) = Some b" using assms(3) by simp
  let ?g2b = "?g2\<lparr>user_sequence := user_sequence ?g2 @ [bid b]\<rparr>"
  let ?ok = "if bid b \<noteq> sequence ?g2 ! 0 then False else True"
  have pe: "process_events 0 (?g2, None, True) (pre @ MOUSEBUTTONDOWN pos # rest)
      = process_events 0 (?g2b, Some (bid b), ?ok) rest"
    by (simp only: process_events_append process_events_passes_by [OF pre2] option.case
          process_events.simps handle_event.simps hit2)
  have K: "?R = Quit \<or>
          (\<exists>s us. ?R = Lost s \<and> user_sequence s = bid b # us) \<or>
          (bid b = hd (sequence g @ [v]) \<and>
           (\<exists>s us ps. (?R = Waiting s \<or> ?R = Won s ps) \<and> user_sequence s = bid b # us))"
  proof (cases "process_events 0 (?g2b, Some (bid b), ?ok) rest")
    case None
    then have "recall (0 # [1..<length (sequence ?g1)]) ?g2
                 ((pre @ MOUSEBUTTONDOWN pos # rest) # ps) = RExit"
      using pe by simp
    then have "?R = Quit" using R F_exit by simp
    then show ?thesis by (rule disjI1)
  next
    case (Some st)
    obtain g3 ui3 r3 where st: "st = (g3, ui3, r3)" by (cases st) auto
    have p3: "process_events 0 (?g2b, Some (bid b), ?ok) rest = Some (g3, ui3, r3)"
      using Some st by simp
    note t = process_events_trace [OF p3]
    from t obtain us1 where "user_sequence g3 = user_sequence ?g2b @ us1" by (elim conjE exE)
    then have u3: "user_sequence g3 = bid b # us1" by simp
    from t have "ui3 \<noteq> None" by simp
    then obtain w where w: "ui3 = Some w" by (cases ui3) auto
    from t have nr: "\<not> ?ok \<longrightarrow> \<not> r3" by (elim conjE)
    have aw: "await_input 0 ?g2 True ((pre @ MOUSEBUTTONDOWN pos # rest) # ps) = AGot g3 r3 ps"
      using pe p3 w by simp
    have rc: "recall (0 # [1..<length (sequence ?g1)]) ?g2
                 ((pre @ MOUSEBUTTONDOWN pos # rest) # ps)
              = (if \<not> r3 then RDone g3 False ps
                 else recall [1..<length (sequence ?g1)] g3 ps)"
      using aw by simp
    show ?thesis
    proof (cases r3)
      case False
      then have "?R = Lost g3" using R rc F_lost by simp
      with u3 show ?thesis by blast
    next
      case True
      then have ok: "bid b = hd (sequence g @ [v])" using nr h0 by (auto split: if_splits)
      have R2: "?R = F (recall [1..<length (sequence ?g1)] g3 ps)" using R rc True by simp
      show ?thesis
      proof (cases "recall [1..<length (sequence ?g1)] g3 ps")
        case RExit
        then have "?R = Quit" using R2 F_exit by simp
        then show ?thesis by (rule disjI1)
      next
        case (RWaiting s0)
        from recall_trace(2) [OF RWaiting] obtain us2 where
          "user_sequence s0 = user_sequence g3 @ us2" by blast
        then have "user_sequence s0 = bid b # (us1 @ us2)" using u3 by simp
        moreover have "?R = Waiting s0" using R2 RWaiting F_wait by simp
        ultimately show ?thesis using ok by blast
      next
        case (RDone s0 r' p')
        from recall_trace(1) [OF RDone] obtain us2 where
          "user_sequence s0 = user_sequence g3 @ us2" by blast
        then have u0: "user_sequence s0 = bid b # (us1 @ us2)" using u3 by simp
        show ?thesis
        proof (cases r')
          case False
          then have "?R = Lost s0" using R2 RDone F_lost by simp
          with u0 show ?thesis by blast
        next
          case True
          from F_won [of s0 p'] obtain s' where
            "F (RDone s0 True p') = Won s' p'" and "user_sequence s' = user_sequence s0" by blast
          then have "?R = Won s' p'" and "user_sequence s' = bid b # (us1 @ us2)"
            using R2 RDone True u0 by simp_all
          with ok show ?thesis by blast
        qed
      qed
    qed
  qed
  have w: "play_round g e [] [] = Waiting (g\<lparr>sequence := sequence g @ [v], user_sequence := []\<rparr>)"
    using single_playback_click [OF assms(1) assms(3) assms(4)] by (rule conjunct1)
  show ?thesis
    by (intro conjI) (rule K play_round_queue w)+
qed

lemma passing_events:
  "list_all (passes_by (buttons init_game)) [OTHER, MOUSEBUTTONDOWN (10, 10)]"
  by code_simp

lemma queued_wrong_click_run:
  "play_round init_game 0 ([OTHER, MOUSEBUTTONDOWN (10, 10)] @ MOUSEBUTTONDOWN (420, 140) # [OTHER])
      [[OTHER, MOUSEBUTTONDOWN (240, 140)]]
     = Lost (init_game\<lparr>sequence := [0], user_sequence := [1, 0]\<rparr>)"
  by code_simp

theorem playback_click_is_handled_in_recall_witness:
  "in_bounds init_game \<and>
   list_all (passes_by (buttons init_game)) [OTHER, MOUSEBUTTONDOWN (10, 10)] \<and>
   find (\<lambda>b. is_clicked b (420, 140)) (buttons init_game)
     = Some \<lparr>brect = \<lparr>rx = 415, ry = 135, rw = 150, rh = 150\<rparr>, bid = 1\<rparr> \<and>
   play_round init_game 0 ([OTHER, MOUSEBUTTONDOWN (10, 10)] @ MOUSEBUTTONDOWN (420, 140) # [OTHER])
      [[OTHER, MOUSEBUTTONDOWN (240, 140)]]
     = Lost (init_game\<lparr>sequence := [0], user_sequence := [1, 0]\<rparr>) \<and>
   (\<exists>s us. play_round init_game 0
              ([OTHER, MOUSEBUTTONDOWN (10, 10)] @ MOUSEBUTTONDOWN (420, 140) # [OTHER])
              [[OTHER, MOUSEBUTTONDOWN (240, 140)]] = Lost s \<and>
           user_sequence s = 1 # us) \<and>
   play_round init_game 0 [MOUSEBUTTONDOWN (420, 140)] ([OTHER] # [[OTHER, MOUSEBUTTONDOWN (240, 140)]])
     = play_round init_game 0 []
         (([MOUSEBUTTONDOWN (420, 140)] @ [OTHER]) # [[OTHER, MOUSEBUTTONDOWN (240, 140)]]) \<and>
   play_round init_game 0 [MOUSEBUTTONDOWN (420, 140)] []
     = play_round init_game 0 [] [[MOUSEBUTTONDOWN (420, 140)]] \<and>
   play_round init_game 0 [] [] = Waiting (init_game\<lparr>sequence := [0], user_sequence := []\<rparr>)"
proof -
  have v: "(0::int) = int (0 mod num_buttons init_game)" by simp
  note t = playback_click_is_handled_in_recall
    [OF init_game_in_bounds passing_events click_on_button_one v,
      where post = "[OTHER]" and polls = "[[OTHER, MOUSEBUTTONDOWN (240, 140)]]"
      and queued = "[MOUSEBUTTONDOWN (420, 140)]" and p = "[OTHER]"]
  have s: "sequence init_game = []" by (simp add: init_game_def)
  have k: "\<exists>s us. play_round init_game 0
              ([OTHER, MOUSEBUTTONDOWN (10, 10)] @ MOUSEBUTTONDOWN (420, 140) # [OTHER])
              [[OTHER, MOUSEBUTTONDOWN (240, 140)]] = Lost s \<and>
           user_sequence s = 1 # us"
  proof -
    have "play_round init_game 0
              ([OTHER, MOUSEBUTTONDOWN (10, 10)] @ MOUSEBUTTONDOWN (420, 140) # [OTHER])
              [[OTHER, MOUSEBUTTONDOWN (240, 140)]] \<noteq> Quit"
      by (simp only: queued_wrong_click_run round_result.distinct not_False_eq_True)
    then show ?thesis using t [THEN conjunct1] by (simp add: s)
  qed
  have w: "play_round init_game 0 [] []
      = Waiting (init_game\<lparr>sequence := [0], user_sequence := []\<rparr>)"
    using t [THEN conjunct2, THEN conjunct2, THEN conjunct2] by (simp add: s)
  show ?thesis
    by (intro conjI)
       (rule init_game_in_bounds passing_events click_on_button_one queued_wrong_click_run k w
          t [THEN conjunct2, THEN conjunct1] t [THEN conjunct2, THEN conjunct2, THEN conjunct1])+
qed

text \<open>
  The claim as the specification states it fails: one click on button 1 made while the
  one-element sequence \<open>[0]\<close> is played back is recorded in \<open>user_sequence\<close>, is
  validated and ends the session, where the same round without that click goes on
  waiting for input.
\<close>

theorem playback_click_counterexample:
  "play_round init_game 0 [MOUSEBUTTONDOWN (420, 140)] []
     = Lost (init_game\<lparr>sequence := [0], user_sequence := [1]\<rparr>) \<and>
   play_round init_game 0 [] [] = Waiting (init_game\<lparr>sequence := [0], user_sequence := []\<rparr>) \<and>
   run_gameplay init_game [(0, [MOUSEBUTTONDOWN (420, 140)])] []
     = Returned (init_game\<lparr>sequence := [0], user_sequence := [1], state := ''GAME_OVER''\<rparr>) \<and>
   run_gameplay init_game [(0, [])] []
     = InRecall (init_game\<lparr>sequence := [0], user_sequence := []\<rparr>)"
  by code_simp

section \<open>A wrong click and the events polled with it\<close>

text \<open>
  Claim C3 says that the first wrong click ends the round at once and that no further
  input is collected. In \<open>run_gameplay\<close> the \<open>break\<close> after a click leaves the loop
  over the buttons only, so the events that the same \<open>pygame.event.get()\<close> returned
  after the wrong click are still handled. With the sequence \<open>[2, 0, 1]\<close> and the clicks
  2, 0, 3, the wrong click on button 3 is followed in its poll by a click on button 1:
  that click is animated and appended too (\<open>user_sequence = [2, 0, 3, 1]\<close>) before the
  method returns with the score unchanged at 2. If the wrong click is followed in its
  poll by a quit event, the process exits and the game-over state is never entered. A
  double click on button 3, both events read at the same mouse position, is recorded
  twice in the same way (\<open>user_sequence = [2, 0, 3, 3]\<close>).
\<close>

theorem wrong_click_same_poll_events:
  "run_gameplay init_game [(2, []), (0, []), (1, [])]
     [[MOUSEBUTTONDOWN (240, 320)],
      [MOUSEBUTTONDOWN (240, 320)], [MOUSEBUTTONDOWN (240, 140)],
      [MOUSEBUTTONDOWN (240, 320)], [MOUSEBUTTONDOWN (240, 140)],
      [MOUSEBUTTONDOWN (420, 320), MOUSEBUTTONDOWN (420, 140)]]
     = Returned (init_game\<lparr>sequence := [2, 0, 1], user_sequence := [2, 0, 3, 1], score := 2,
                           state := ''GAME_OVER''\<rparr>) \<and>
   run_gameplay init_game [(2, []), (0, []), (1, [])]
     [[MOUSEBUTTONDOWN (240, 320)],
      [MOUSEBUTTONDOWN (240, 320)], [MOUSEBUTTONDOWN (240, 140)],
      [MOUSEBUTTONDOWN (240, 320)], [MOUSEBUTTONDOWN (240, 140)],
      [MOUSEBUTTONDOWN (420, 320)]]
     = Returned (init_game\<lparr>sequence := [2, 0, 1], user_sequence := [2, 0, 3], score := 2,
                           state := ''GAME_OVER''\<rparr>) \<and>
   run_gameplay init_game [(2, []), (0, []), (1, [])]
     [[MOUSEBUTTONDOWN (240, 320)],
      [MOUSEBUTTONDOWN (240, 320)], [MOUSEBUTTONDOWN (240, 140)],
      [MOUSEBUTTONDOWN (240, 320)], [MOUSEBUTTONDOWN (240, 140)],
      [MOUSEBUTTONDOWN (420, 320), QUIT]]
     = Exited \<and>
   run_gameplay init_game [(2, []), (0, []), (1, [])]
     [[MOUSEBUTTONDOWN (240, 320)],
      [MOUSEBUTTONDOWN (240, 320)], [MOUSEBUTTONDOWN (240, 140)],
      [MOUSEBUTTONDOWN (240, 320)], [MOUSEBUTTONDOWN (240, 140)],
      [MOUSEBUTTONDOWN (420, 320), MOUSEBUTTONDOWN (420, 320)]]
     = Returned (init_game\<lparr>sequence := [2, 0, 1], user_sequence := [2, 0, 3, 3], score := 2,
                           state := ''GAME_OVER''\<rparr>)"
  by code_simp

end
